theory Spec2Isabelle
  imports Main "HOL-Library.AList" "HOL-Library.Sublist"
begin

section \<open>Data model of the solver (src/csp.js)\<close>

text \<open>
  A JavaScript object that maps variable names to domain arrays is an association list
  of its own properties in property order: \<open>map_of\<close> reads an own property,
  \<open>AList.update\<close> writes one (in place when the key exists, appended otherwise) and
  \<open>AList.delete\<close> removes one. Variable names are ordinary property names (not array
  indices, whose enumeration order differs). Domain values are of an arbitrary type \<open>'v\<close>.

  A caller-supplied predicate is a function that either throws (\<open>Inl\<close>) or returns a
  value of which only the truthiness is used (\<open>Inr\<close>). A predicate of an n-ary
  constraint reads the tuple object it is given; it is modelled as a function of the
  tuple's contents, a finite map from participant names to values.
\<close>

datatype error =
    InvalidDomain string
  | UnknownVariable string
  | MissingPredicate
  | MissingVars
  | TypeError
  | Thrown string

type_synonym 'v domains = "(string \<times> 'v list) list"

type_synonym 'v pred2 = "'v \<Rightarrow> 'v \<Rightarrow> error + bool"

type_synonym 'v tuple = "string \<rightharpoonup> 'v"

type_synonym 'v arc = "string \<times> string \<times> 'v pred2"

text \<open>
  An n-ary constraint is an object \<open>{ vars, predicate }\<close>. The work queue of \<open>runGAC\<close>
  compares constraints by reference (\<open>queue.indexOf(Rc)\<close>), so the model carries the
  identity of the object in the field \<open>ident\<close>.
\<close>

record 'v nary =
  ident :: nat
  vars :: "string list"
  predicate :: "'v tuple \<Rightarrow> error + bool"

text \<open>The sentinel \<open>FAILURE\<close> or a proper result.\<close>

datatype 'a outcome = FAILURE | Result 'a

text \<open>
  The objects of the solver are made by the literal \<open>{}\<close>, so they inherit the
  properties of \<open>Object.prototype\<close>. Reading a name that is not an own property of such
  an object gives the inherited member when the name is one of \<open>objectPrototype\<close>: a
  function, or the prototype object itself for \<open>__proto__\<close>. Every one of them is
  truthy, none is an array, and none is enumerable.
\<close>

definition objectPrototype :: "string list" where
  "objectPrototype =
     [''constructor'', ''__defineGetter__'', ''__defineSetter__'', ''hasOwnProperty'',
      ''__lookupGetter__'', ''__lookupSetter__'', ''isPrototypeOf'', ''propertyIsEnumerable'',
      ''toString'', ''valueOf'', ''__proto__'', ''toLocaleString'']"

definition inherited :: "string \<Rightarrow> bool" where
  "inherited key \<longleftrightarrow> key \<in> set objectPrototype"

text \<open>
  The test \<open>if (obj[key])\<close> on an object whose own properties are arrays: an own
  property is truthy, and so is an inherited member.
\<close>

definition truthyAt :: "'v domains \<Rightarrow> string \<Rightarrow> bool" where
  "truthyAt obj key \<longleftrightarrow> map_of obj key \<noteq> None \<or> inherited key"

section \<open>Helpers: cloning and checks\<close>

text \<open>Values of the model are immutable, so a copy made by \<open>slice\<close> is the value itself.\<close>

definition cloneAssignment :: "'v domains \<Rightarrow> 'v domains" where
  "cloneAssignment assigned = map (\<lambda>(k, d). (k, d)) assigned"

definition finished :: "'v domains \<Rightarrow> bool" where
  "finished unassigned = (length unassigned = 0)"

definition anyEmpty :: "'v domains \<Rightarrow> bool" where
  "anyEmpty doms = list_ex (\<lambda>(k, d). length d = 0) doms"

definition partialAssignment :: "'v domains \<Rightarrow> 'v domains \<Rightarrow> 'v domains" where
  "partialAssignment assigned unassigned =
     foldl (\<lambda>partial (key, d). AList.update key d partial)
       (foldl (\<lambda>partial (key, d). AList.update key d partial) [] unassigned) assigned"

section \<open>Binary arc consistency (runAC3)\<close>

text \<open>
  \<open>hv.some(h => predicate(h, t))\<close> and \<open>tv.filter(...)\<close>, in evaluation order: the first
  call that throws ends the computation, and \<open>some\<close> stops at the first truthy answer.
\<close>

fun someE :: "('a \<Rightarrow> error + bool) \<Rightarrow> 'a list \<Rightarrow> error + bool" where
  "someE f [] = Inr False"
| "someE f (x # xs) =
     (case f x of
        Inl e \<Rightarrow> Inl e
      | Inr b \<Rightarrow> if b then Inr True else someE f xs)"

fun filterE :: "('a \<Rightarrow> error + bool) \<Rightarrow> 'a list \<Rightarrow> error + 'a list" where
  "filterE f [] = Inr []"
| "filterE f (x # xs) =
     (case f x of
        Inl e \<Rightarrow> Inl e
      | Inr b \<Rightarrow>
          (case filterE f xs of
             Inl e \<Rightarrow> Inl e
           | Inr ys \<Rightarrow> Inr (if b then x # ys else ys)))"

definition incomingConstraints :: "'v arc list \<Rightarrow> string \<Rightarrow> 'v arc list" where
  "incomingConstraints cs node = filter (\<lambda>c. fst c = node) cs"

text \<open>Returns the flag \<open>removed\<close> together with the updated mapping \<open>vars\<close>.\<close>

definition removeInconsistentValues ::
  "string \<Rightarrow> string \<Rightarrow> 'v pred2 \<Rightarrow> 'v domains \<Rightarrow> error + bool \<times> 'v domains" where
  "removeInconsistentValues head tail pred doms =
     (case map_of doms head of
        None \<Rightarrow> Inr (False, doms)
      | Some hv \<Rightarrow>
          (case map_of doms tail of
             None \<Rightarrow> Inr (False, doms)
           | Some tv \<Rightarrow>
               (case filterE (\<lambda>t. someE (\<lambda>h. pred h t) hv) tv of
                  Inl e \<Rightarrow> Inl e
                | Inr validTailValues \<Rightarrow>
                    Inr (length validTailValues \<noteq> length tv,
                         AList.update tail validTailValues doms))))"

text \<open>
  The work-queue loop of \<open>runAC3\<close>. A run that never leaves the loop has the value
  \<open>None\<close>; the result is the returned flag and the final state of \<open>variables\<close>.
\<close>

partial_function (option) runAC3_while ::
  "'v arc list \<Rightarrow> 'v domains \<Rightarrow> 'v arc list \<Rightarrow> (error + bool \<times> 'v domains) option" where
  "runAC3_while cs doms queue =
     (case queue of
        [] \<Rightarrow> Some (Inr (True, doms))
      | c # rest \<Rightarrow>
          (let head = fst c; tail = fst (snd c); pred = snd (snd c) in
           if map_of doms head = None \<or> map_of doms tail = None
           then runAC3_while cs doms rest
           else
             (case removeInconsistentValues head tail pred doms of
                Inl e \<Rightarrow> Some (Inl e)
              | Inr (removed, doms') \<Rightarrow>
                  if removed then
                    (if map_of doms' tail = None \<or> map_of doms' tail = Some []
                     then Some (Inr (False, doms'))
                     else runAC3_while cs doms' (rest @ incomingConstraints cs tail))
                  else runAC3_while cs doms' rest)))"

declare runAC3_while.simps [code]

definition runAC3 :: "'v domains \<Rightarrow> 'v arc list \<Rightarrow> (error + bool \<times> 'v domains) option" where
  "runAC3 doms cs = runAC3_while cs doms cs"

section \<open>The support oracle (hasSupport)\<close>

text \<open>
  The first loop collects the other participants and gives up (\<open>None\<close>, for
  \<open>return false\<close>) at a participant whose domain is missing or empty.
\<close>

fun collectOthers :: "string \<Rightarrow> string list \<Rightarrow> 'v domains \<Rightarrow> string list \<Rightarrow> string list option" where
  "collectOthers focusVar [] doms others = Some others"
| "collectOthers focusVar (v # vs) doms others =
     (if v = focusVar then collectOthers focusVar vs doms others
      else
        (case map_of doms v of
           None \<Rightarrow> None
         | Some d \<Rightarrow>
             if length d = 0 then None
             else collectOthers focusVar vs doms (others @ [v])))"

definition domainOf :: "'v domains \<Rightarrow> string \<Rightarrow> 'v list" where
  "domainOf doms v = (case map_of doms v of None \<Rightarrow> [] | Some d \<Rightarrow> d)"

text \<open>
  The depth-first search over \<open>order\<close> and \<open>domains\<close> (zipped here). A predicate that
  throws at a complete tuple is caught and counts as \<open>false\<close>.
\<close>

fun dfs :: "('v tuple \<Rightarrow> error + bool) \<Rightarrow> (string \<times> 'v list) list \<Rightarrow> 'v tuple \<Rightarrow> bool" where
  "dfs pred [] assign = (case pred assign of Inl e \<Rightarrow> False | Inr b \<Rightarrow> b)"
| "dfs pred ((vname, d) # rest) assign =
     list_ex (\<lambda>val. dfs pred rest (assign(vname \<mapsto> val))) d"

definition hasSupport :: "string \<Rightarrow> 'v \<Rightarrow> 'v nary \<Rightarrow> 'v domains \<Rightarrow> bool" where
  "hasSupport focusVar focusVal C doms =
     (case collectOthers focusVar (vars C) doms [] of
        None \<Rightarrow> False
      | Some others \<Rightarrow>
          (let sorted = sort_key (\<lambda>v. length (domainOf doms v)) others;
               order = focusVar # sorted;
               domains = [focusVal] # map (domainOf doms) sorted
           in dfs (predicate C) (zip order domains) Map.empty))"

section \<open>Generalised arc consistency (runGAC)\<close>

type_synonym 'v index = "(string \<times> 'v nary list) list"

text \<open>
  The statement \<open>(index[v] = index[v] || []).push(C)\<close> on the plain object \<open>index\<close>. For
  a participant that is not yet an own property, \<open>index[v]\<close> reads the inherited member
  if there is one; it is truthy and has no method \<open>push\<close>, so the call throws a
  \<open>TypeError\<close>.
\<close>

fun indexParticipants :: "'v nary \<Rightarrow> string list \<Rightarrow> 'v index \<Rightarrow> error + 'v index" where
  "indexParticipants C [] index = Inr index"
| "indexParticipants C (v # rest) index =
     (case map_of index v of
        Some related \<Rightarrow> indexParticipants C rest (AList.update v (related @ [C]) index)
      | None \<Rightarrow>
          if inherited v then Inl TypeError
          else indexParticipants C rest (AList.update v [C] index))"

fun indexConstraints :: "'v nary list \<Rightarrow> 'v index \<Rightarrow> error + 'v index" where
  "indexConstraints [] index = Inr index"
| "indexConstraints (C # rest) index =
     (case indexParticipants C (vars C) index of
        Inl e \<Rightarrow> Inl e
      | Inr index' \<Rightarrow> indexConstraints rest index')"

definition buildNaryIndex :: "'v nary list \<Rightarrow> error + 'v index" where
  "buildNaryIndex naryCs = indexConstraints naryCs []"

text \<open>
  The loop over the participants of one constraint. The result is
  \<open>(ok, changedAny, variables)\<close>; \<open>ok = False\<close> is the early \<open>return false\<close> at an
  emptied domain.
\<close>

fun pruneVars :: "'v nary \<Rightarrow> string list \<Rightarrow> 'v domains \<Rightarrow> bool \<Rightarrow> bool \<times> bool \<times> 'v domains" where
  "pruneVars C [] doms changedAny = (True, changedAny, doms)"
| "pruneVars C (varName # rest) doms changedAny =
     (case map_of doms varName of
        None \<Rightarrow> pruneVars C rest doms changedAny
      | Some d \<Rightarrow>
          (let newDom = filter (\<lambda>val. hasSupport varName val C doms) d in
           if length newDom \<noteq> length d then
             (let doms' = AList.update varName newDom doms in
              if length newDom = 0 then (False, changedAny, doms')
              else pruneVars C rest doms' True)
           else pruneVars C rest doms changedAny))"

text \<open>Re-enqueue every constraint related to a participant, unless it is queued already.\<close>

definition enqueueRelated :: "'v index \<Rightarrow> string list \<Rightarrow> 'v nary list \<Rightarrow> 'v nary list" where
  "enqueueRelated index vs queue =
     foldl (\<lambda>queue v2.
              foldl (\<lambda>queue Rc.
                       if list_ex (\<lambda>Q. ident Q = ident Rc) queue then queue
                       else queue @ [Rc])
                queue (case map_of index v2 of None \<Rightarrow> [] | Some related \<Rightarrow> related))
       queue vs"

partial_function (option) runGAC_while ::
  "'v index \<Rightarrow> 'v domains \<Rightarrow> 'v nary list \<Rightarrow> (bool \<times> 'v domains) option" where
  "runGAC_while index doms queue =
     (case queue of
        [] \<Rightarrow> Some (True, doms)
      | C # rest \<Rightarrow>
          (case pruneVars C (vars C) doms False of
             (ok, changedAny, doms') \<Rightarrow>
               if \<not> ok then Some (False, doms')
               else if changedAny
               then runGAC_while index doms' (enqueueRelated index (vars C) rest)
               else runGAC_while index doms' rest))"

declare runGAC_while.simps [code]

section \<open>The problem and the consistency pass\<close>

text \<open>
  The normalised problem. \<open>variables\<close> still holds values that may or may not be
  arrays, which is what \<open>validateProblem\<close> tests; \<open>naryIndex\<close> is the property
  \<open>_naryIndex\<close>, absent until \<open>solve\<close> sets it.
\<close>

datatype 'v jsdomain = ArrayDomain "'v list" | NotAnArray

record 'v problem =
  variables :: "(string \<times> 'v jsdomain) list"
  constraints :: "'v arc list"
  naryConstraints :: "'v nary list"
  naryIndex :: "'v index option"

text \<open>
  \<open>runGAC\<close> takes the index from \<open>csp._naryIndex\<close> or builds it, which can throw, and
  then runs the loop.
\<close>

definition runGAC :: "'v domains \<Rightarrow> 'v problem \<Rightarrow> (error + bool \<times> 'v domains) option" where
  "runGAC doms csp =
     (case (case naryIndex csp of
              Some index \<Rightarrow> Inr index
            | None \<Rightarrow> buildNaryIndex (naryConstraints csp)) of
        Inl e \<Rightarrow> Some (Inl e)
      | Inr index \<Rightarrow>
          (case runGAC_while index doms (naryConstraints csp) of
             None \<Rightarrow> None
           | Some r \<Rightarrow> Some (Inr r)))"

definition enforceConsistency ::
  "'v domains \<Rightarrow> 'v domains \<Rightarrow> 'v problem \<Rightarrow> (error + 'v domains outcome) option" where
  "enforceConsistency assigned unassigned csp =
     (let doms = partialAssignment assigned unassigned;
          ac3 = (if length (constraints csp) \<noteq> 0 then runAC3 doms (constraints csp)
                 else Some (Inr (True, doms)))
      in case ac3 of
           None \<Rightarrow> None
         | Some (Inl e) \<Rightarrow> Some (Inl e)
         | Some (Inr (ok, doms1)) \<Rightarrow>
             if \<not> ok then Some (Inr FAILURE)
             else
               (let gac = (if length (naryConstraints csp) \<noteq> 0 then runGAC doms1 csp
                           else Some (Inr (True, doms1)))
                in case gac of
                     None \<Rightarrow> None
                   | Some (Inl e) \<Rightarrow> Some (Inl e)
                   | Some (Inr (ok2, doms2)) \<Rightarrow>
                       if \<not> ok2 then Some (Inr FAILURE) else Some (Inr (Result doms2))))"

section \<open>Heuristics\<close>

text \<open>
  Minimum remaining values: \<open>minLen = None\<close> is \<open>Infinity\<close>; a domain of length 1
  ends the scan.
\<close>

fun selectLoop :: "'v domains \<Rightarrow> string option \<Rightarrow> nat option \<Rightarrow> string option" where
  "selectLoop [] minKey minLen = minKey"
| "selectLoop ((key, d) # rest) minKey minLen =
     (let len = length d in
      if (case minLen of None \<Rightarrow> True | Some m \<Rightarrow> len < m)
      then (if len = 1 then Some key else selectLoop rest (Some key) (Some len))
      else selectLoop rest minKey minLen)"

definition selectUnassignedVariable :: "'v domains \<Rightarrow> string option" where
  "selectUnassignedVariable unassigned = selectLoop unassigned None None"

text \<open>
  The scores of \<open>orderValues\<close>: \<open>-Infinity\<close> or a count. The table \<open>score\<close> is an
  object keyed by the property key of the value, which the conversion \<open>str\<close> of the
  host gives.
\<close>

datatype score = NegInfinity | Count nat

definition countValues :: "'v domains \<Rightarrow> nat" where
  "countValues doms = foldl (\<lambda>sum (k, d). sum + length d) 0 doms"

fun scoreValues ::
  "('v \<Rightarrow> string) \<Rightarrow> string \<Rightarrow> 'v domains \<Rightarrow> 'v domains \<Rightarrow> 'v problem \<Rightarrow> 'v list \<Rightarrow>
   (string \<times> score) list \<Rightarrow> (error + (string \<times> score) list) option" where
  "scoreValues str nextKey assigned unassigned csp [] score = Some (Inr score)"
| "scoreValues str nextKey assigned unassigned csp (val # rest) score =
     (let A = AList.update nextKey [val] (cloneAssignment assigned);
          U = AList.delete nextKey (cloneAssignment unassigned)
      in case enforceConsistency A U csp of
           None \<Rightarrow> None
         | Some (Inl e) \<Rightarrow> Some (Inl e)
         | Some (Inr res) \<Rightarrow>
             scoreValues str nextKey assigned unassigned csp rest
               (AList.update (str val)
                  (case res of
                     FAILURE \<Rightarrow> NegInfinity
                   | Result r \<Rightarrow> if anyEmpty r then NegInfinity else Count (countValues r))
                  score))"

text \<open>
  The comparator \<open>score[b] - score[a]\<close> is positive, so that \<open>a\<close> goes after \<open>b\<close>,
  exactly when the score of \<open>b\<close> is the larger one; \<open>-Infinity - -Infinity\<close> is \<open>NaN\<close>,
  which \<open>sort\<close> reads as 0. \<open>Array.prototype.sort\<close> is stable.
\<close>

definition goesAfter :: "('v \<Rightarrow> string) \<Rightarrow> (string \<times> score) list \<Rightarrow> 'v \<Rightarrow> 'v \<Rightarrow> bool" where
  "goesAfter str score a b =
     (case map_of score (str a) of
        None \<Rightarrow> False
      | Some NegInfinity \<Rightarrow>
          (case map_of score (str b) of Some (Count m) \<Rightarrow> True | _ \<Rightarrow> False)
      | Some (Count n) \<Rightarrow>
          (case map_of score (str b) of Some (Count m) \<Rightarrow> n < m | _ \<Rightarrow> False))"

fun insertBy :: "('a \<Rightarrow> 'a \<Rightarrow> bool) \<Rightarrow> 'a \<Rightarrow> 'a list \<Rightarrow> 'a list" where
  "insertBy after x [] = [x]"
| "insertBy after x (y # ys) = (if after x y then y # insertBy after x ys else x # y # ys)"

definition sortBy :: "('a \<Rightarrow> 'a \<Rightarrow> bool) \<Rightarrow> 'a list \<Rightarrow> 'a list" where
  "sortBy after xs = foldr (insertBy after) xs []"

definition orderValues ::
  "('v \<Rightarrow> string) \<Rightarrow> string \<Rightarrow> 'v domains \<Rightarrow> 'v domains \<Rightarrow> 'v problem \<Rightarrow>
   (error + 'v list) option" where
  "orderValues str nextKey assigned unassigned csp =
     (let baseValues = (case map_of unassigned nextKey of None \<Rightarrow> [] | Some d \<Rightarrow> d) in
      if length baseValues \<le> 1 then Some (Inr baseValues)
      else
        (case scoreValues str nextKey assigned unassigned csp baseValues [] of
           None \<Rightarrow> None
         | Some (Inl e) \<Rightarrow> Some (Inl e)
         | Some (Inr score) \<Rightarrow> Some (Inr (sortBy (goesAfter str score) baseValues))))"

section \<open>Core search (backtrack)\<close>

text \<open>
  \<open>tryValues\<close> is the \<open>for\<close> loop over \<open>values\<close>. The split of \<open>consistent\<close> tests
  \<open>if (assigned[key])\<close> on the object \<open>assigned\<close>, which reads inherited members too
  (\<open>truthyAt\<close>). The progress callback runs from a timer after \<open>solve\<close> has returned
  and takes no part in the result; it and \<open>stepCounter\<close> are left out.
\<close>

function (sequential)
  backtrack :: "('v \<Rightarrow> string) \<Rightarrow> 'v problem \<Rightarrow> 'v domains \<Rightarrow> 'v domains \<Rightarrow>
                (error + 'v domains outcome) option"
  and tryValues :: "('v \<Rightarrow> string) \<Rightarrow> 'v problem \<Rightarrow> string \<Rightarrow> 'v domains \<Rightarrow> 'v domains \<Rightarrow>
                'v list \<Rightarrow> (error + 'v domains outcome) option"
where
  "backtrack str csp assigned0 unassigned =
     (let assigned = cloneAssignment assigned0 in
      if finished unassigned then Some (Inr (Result assigned))
      else
        (case selectUnassignedVariable unassigned of
           None \<Rightarrow> Some (Inr FAILURE)
         | Some nextKey \<Rightarrow>
             (case orderValues str nextKey assigned unassigned csp of
                None \<Rightarrow> None
              | Some (Inl e) \<Rightarrow> Some (Inl e)
              | Some (Inr values) \<Rightarrow>
                  tryValues str csp nextKey assigned (AList.delete nextKey unassigned) values)))"
| "tryValues str csp nextKey assigned unassigned [] = Some (Inr FAILURE)"
| "tryValues str csp nextKey assigned unassigned (val # rest) =
     (let assigned1 = AList.update nextKey [val] assigned in
      case enforceConsistency assigned1 unassigned csp of
        None \<Rightarrow> None
      | Some (Inl e) \<Rightarrow> Some (Inl e)
      | Some (Inr FAILURE) \<Rightarrow>
          tryValues str csp nextKey (AList.delete nextKey assigned1) unassigned rest
      | Some (Inr (Result consistent)) \<Rightarrow>
          (let newAssigned = filter (\<lambda>(key, d). truthyAt assigned1 key) consistent;
               newUnassigned = filter (\<lambda>(key, d). \<not> truthyAt assigned1 key) consistent
           in if anyEmpty consistent
              then tryValues str csp nextKey (AList.delete nextKey assigned1) unassigned rest
              else
                (case backtrack str csp newAssigned newUnassigned of
                   Some (Inr FAILURE) \<Rightarrow>
                     tryValues str csp nextKey (AList.delete nextKey assigned1) unassigned rest
                 | r \<Rightarrow> r)))"
  by pat_completeness auto

subsection \<open>Termination of the search\<close>

text \<open>
  A consistency pass keeps the keys of the mapping, so every recursive call of
  \<open>backtrack\<close> has fewer unassigned variables than its caller.
\<close>

lemma map_of_Some_key: "map_of al k = Some v \<Longrightarrow> k \<in> fst ` set al"
  by (metis map_of_eq_None_iff option.distinct(1))

lemma keys_update_present:
  "map_of al k = Some v \<Longrightarrow> map fst (AList.update k w al) = map fst al"
  by (simp add: update_keys map_of_Some_key)

lemma keys_removeInconsistentValues:
  "removeInconsistentValues h t p doms = Inr (r, doms') \<Longrightarrow> map fst doms' = map fst doms"
  by (auto simp: removeInconsistentValues_def keys_update_present split: option.splits sum.splits)

lemmas runAC3_while_induct = runAC3_while.raw_induct[rotated 1, consumes 1, case_names step]
lemmas runGAC_while_induct = runGAC_while.raw_induct[rotated 1, consumes 1, case_names step]

lemma keys_runAC3_while:
  "runAC3_while cs doms queue = Some y \<Longrightarrow>
   (\<forall>ok doms'. y = Inr (ok, doms') \<longrightarrow> map fst doms' = map fst doms)"
proof (induct rule: runAC3_while_induct)
  case (step rec cs doms queue y)
  then show ?case
    by (auto simp: Let_def split: list.splits if_splits sum.splits prod.splits
        dest!: keys_removeInconsistentValues)
qed

lemma keys_pruneVars:
  "pruneVars C vs doms ch = (ok, ch', doms') \<Longrightarrow> map fst doms' = map fst doms"
proof (induction C vs doms ch rule: pruneVars.induct)
  case (1 C doms changedAny)
  then show ?case by simp
next
  case (2 C varName rest doms changedAny)
  then show ?case
    by (auto simp: Let_def keys_update_present split: option.splits if_splits)
qed

lemma keys_runGAC_while:
  "runGAC_while index doms queue = Some y \<Longrightarrow> map fst (snd y) = map fst doms"
proof (induct rule: runGAC_while_induct)
  case (step rec index doms queue y)
  then show ?case
    by (auto simp: Let_def split: list.splits if_splits prod.splits
        dest!: keys_pruneVars)
qed

lemma keys_enforceConsistency:
  "enforceConsistency A U csp = Some (Inr (Result c)) \<Longrightarrow>
   map fst c = map fst (partialAssignment A U)"
  by (auto simp: enforceConsistency_def Let_def runAC3_def runGAC_def
      split: if_splits option.splits sum.splits prod.splits
      dest!: keys_runAC3_while keys_runGAC_while)

lemma selectLoop_key:
  "selectLoop U mk ml = Some k \<Longrightarrow> mk = Some k \<or> k \<in> fst ` set U"
  by (induction U mk ml rule: selectLoop.induct) (auto simp: Let_def split: if_splits)

lemma selectUnassignedVariable_key:
  "selectUnassignedVariable U = Some k \<Longrightarrow> k \<in> fst ` set U"
  using selectLoop_key[of U None None k] by (simp add: selectUnassignedVariable_def)

lemma length_delete_less:
  "k \<in> fst ` set U \<Longrightarrow> length (AList.delete k U) < length U"
proof -
  assume "k \<in> fst ` set U"
  then obtain x where "x \<in> set U" "\<not> (\<lambda>(k', _). k \<noteq> k') x" by auto
  then show ?thesis unfolding AList.delete_eq by (rule length_filter_less)
qed

lemma length_foldl_update:
  "length (foldl (\<lambda>partial (key, d). AList.update key d partial) init U) \<le> length init + length U"
proof (induction U arbitrary: init)
  case Nil
  then show ?case by simp
next
  case (Cons a U)
  have "length (AList.update (fst a) (snd a) init) \<le> Suc (length init)"
    by (metis length_map update_keys length_append_singleton le_Suc_eq order_refl)
  with Cons[of "AList.update (fst a) (snd a) init"] show ?case
    by (simp add: case_prod_beta)
qed

lemma filter_keys_foldl_update:
  "fst ` set A \<subseteq> S \<Longrightarrow>
   filter (\<lambda>k. k \<notin> S) (map fst (foldl (\<lambda>partial (key, d). AList.update key d partial) init A))
   = filter (\<lambda>k. k \<notin> S) (map fst init)"
proof (induction A arbitrary: init)
  case Nil
  then show ?case by simp
next
  case (Cons a A)
  then show ?case by (auto simp: case_prod_beta update_keys)
qed

lemma length_filter_mono:
  "(\<And>x. x \<in> set xs \<Longrightarrow> P x \<Longrightarrow> Q x) \<Longrightarrow> length (filter P xs) \<le> length (filter Q xs)"
  by (induction xs) auto

lemma length_newUnassigned:
  assumes "map fst c = map fst (partialAssignment A U)"
  shows "length (filter (\<lambda>(key, d). \<not> truthyAt A key) c) \<le> length U"
proof -
  have "length (filter (\<lambda>(key, d). \<not> truthyAt A key) c)
        \<le> length (filter (\<lambda>(key, d). map_of A key = None) c)"
    by (rule length_filter_mono) (auto simp: truthyAt_def)
  also have "\<dots> = length (filter (\<lambda>k. k \<notin> fst ` set A) (map fst c))"
    by (simp add: filter_map comp_def case_prod_beta map_of_eq_None_iff cong: filter_cong)
  also have "\<dots> = length (filter (\<lambda>k. k \<notin> fst ` set A)
      (map fst (foldl (\<lambda>partial (key, d). AList.update key d partial) [] U)))"
    unfolding assms partialAssignment_def by (simp add: filter_keys_foldl_update)
  also have "\<dots> \<le> length (foldl (\<lambda>partial (key, d). AList.update key d partial) [] U)"
    by (metis length_filter_le length_map)
  also have "\<dots> \<le> length U"
    using length_foldl_update[of "[]" U] by simp
  finally show ?thesis .
qed

termination backtrack
proof (relation "measures
      [\<lambda>x. case x of
          Inl (str, csp, A, U) \<Rightarrow> 2 * length U + 1
        | Inr (str, csp, k, A, U, vs) \<Rightarrow> 2 * length U + 2,
       \<lambda>x. case x of Inl _ \<Rightarrow> 0 | Inr (str, csp, k, A, U, vs) \<Rightarrow> length vs]",
    goal_cases)
  case 1
  then show ?case by simp
next
  case (2 str csp assigned0 unassigned x xa x2 x2a)
  then show ?case
    using length_delete_less[OF selectUnassignedVariable_key] by fastforce
next
  case 3
  then show ?case by simp
next
  case 4
  then show ?case by simp
next
  case (5 str csp nextKey assigned unassigned val rest x x2 x2a x2b xa xb)
  then show ?case
    using length_newUnassigned[OF keys_enforceConsistency] by (fastforce simp: less_Suc_eq_le)
next
  case 6
  then show ?case by simp
qed

declare backtrack.simps [simp del]

section \<open>Validation and normalization\<close>

text \<open>
  The caller's description. \<open>rawVariables\<close> holds the properties of the object
  \<open>csp.variables\<close> that \<open>for...in\<close> enumerates, in that order (none when the object is
  absent); a list of constraints is \<open>None\<close> when the property is not an array. An entry
  of \<open>constraints\<close> that is not an array of at least three elements with a function
  third is \<open>MalformedArc\<close>; an entry of \<open>naryConstraints\<close> that is falsy, or whose
  \<open>vars\<close> is not an array, or whose \<open>predicate\<close> is not a function, is \<open>MalformedNary\<close>.
  The endpoints of a constraint are strings.
\<close>

datatype 'v raw_arc = Arc string string "'v pred2" | MalformedArc

datatype 'v raw_nary = Nary "'v nary" | MalformedNary

record 'v description =
  rawVariables :: "(string \<times> 'v jsdomain) list"
  rawConstraints :: "'v raw_arc list option"
  rawNaryConstraints :: "'v raw_nary list option"

text \<open>
  The assignment \<open>obj[k] = v\<close> on a plain object. For the key \<open>__proto__\<close> it runs the
  setter that \<open>Object.prototype\<close> has for this name: no own property is created. The
  setter makes \<open>v\<close> the prototype of the object, whose elements then show up as
  inherited properties named by their indices; the model does not follow that, and
  \<open>ordinaryKeys\<close> is the condition on a description under which it does not occur.
\<close>

definition assignProperty :: "string \<Rightarrow> 'a \<Rightarrow> (string \<times> 'a) list \<Rightarrow> (string \<times> 'a) list" where
  "assignProperty k v obj = (if k = ''__proto__'' then obj else AList.update k v obj)"

definition ordinaryKeys :: "'v description \<Rightarrow> bool" where
  "ordinaryKeys csp \<longleftrightarrow> ''__proto__'' \<notin> fst ` set (rawVariables csp)"

definition normalizeProblem :: "'v description \<Rightarrow> 'v problem" where
  "normalizeProblem csp =
     \<lparr> variables =
         foldl (\<lambda>out (k, d).
                  assignProperty k
                    (case d of ArrayDomain xs \<Rightarrow> ArrayDomain xs | NotAnArray \<Rightarrow> ArrayDomain [])
                    out)
           [] (rawVariables csp),
       constraints =
         (case rawConstraints csp of
            None \<Rightarrow> []
          | Some cs \<Rightarrow>
              concat (map (\<lambda>c. case c of Arc h t p \<Rightarrow> [(h, t, p)] | MalformedArc \<Rightarrow> []) cs)),
       naryConstraints =
         (case rawNaryConstraints csp of
            None \<Rightarrow> []
          | Some cs \<Rightarrow>
              concat (map (\<lambda>C. case C of Nary c \<Rightarrow> [c] | MalformedNary \<Rightarrow> []) cs)),
       naryIndex = None \<rparr>"

text \<open>
  \<open>validateProblem\<close> returns nothing or throws. The tests \<open>typeof pred !== 'function'\<close>
  and \<open>!Array.isArray(C.vars)\<close> are decided by the types of the normalised problem.
\<close>

fun validateDomains :: "(string \<times> 'v jsdomain) list \<Rightarrow> error + unit" where
  "validateDomains [] = Inr ()"
| "validateDomains ((v, d) # rest) =
     (case d of
        NotAnArray \<Rightarrow> Inl (InvalidDomain v)
      | ArrayDomain xs \<Rightarrow> validateDomains rest)"

fun validateBinary :: "string set \<Rightarrow> 'v arc list \<Rightarrow> error + unit" where
  "validateBinary varsSet [] = Inr ()"
| "validateBinary varsSet (c # rest) =
     (let head = fst c; tail = fst (snd c) in
      if head \<notin> varsSet then Inl (UnknownVariable head)
      else if tail \<notin> varsSet then Inl (UnknownVariable tail)
      else validateBinary varsSet rest)"

fun validateParticipants :: "string set \<Rightarrow> string list \<Rightarrow> error + unit" where
  "validateParticipants varsSet [] = Inr ()"
| "validateParticipants varsSet (v # rest) =
     (if v \<notin> varsSet then Inl (UnknownVariable v)
      else validateParticipants varsSet rest)"

fun validateNary :: "string set \<Rightarrow> 'v nary list \<Rightarrow> error + unit" where
  "validateNary varsSet [] = Inr ()"
| "validateNary varsSet (C # rest) =
     (if length (vars C) = 0 then Inl MissingVars
      else
        (case validateParticipants varsSet (vars C) of
           Inl e \<Rightarrow> Inl e
         | Inr u \<Rightarrow> validateNary varsSet rest))"

definition validateProblem :: "'v problem \<Rightarrow> error + unit" where
  "validateProblem csp =
     (let varsSet = set (map fst (variables csp)) in
      case validateDomains (variables csp) of
        Inl e \<Rightarrow> Inl e
      | Inr u \<Rightarrow>
          (case validateBinary varsSet (constraints csp) of
             Inl e \<Rightarrow> Inl e
           | Inr u \<Rightarrow> validateNary varsSet (naryConstraints csp)))"

text \<open>
  \<open>cloneVars\<close> on the variables of the problem: \<open>slice\<close> is a method of arrays, and the
  call throws on a value that has none. On the search state \<open>cloneVars\<close> has the body of
  \<open>cloneAssignment\<close>.
\<close>

fun cloneVars :: "(string \<times> 'v jsdomain) list \<Rightarrow> 'v domains \<Rightarrow> error + 'v domains" where
  "cloneVars [] out = Inr out"
| "cloneVars ((k, d) # rest) out =
     (case d of
        NotAnArray \<Rightarrow> Inl TypeError
      | ArrayDomain xs \<Rightarrow> cloneVars rest (AList.update k xs out))"

section \<open>Public API (CSP.solve)\<close>

text \<open>
  The result maps each variable to the first element of its array, which is
  \<open>undefined\<close> (\<open>None\<close>) for an empty one.
\<close>

definition unwrap :: "'v domains \<Rightarrow> (string \<times> 'v option) list" where
  "unwrap result = map (\<lambda>(key, v). (key, case v of [] \<Rightarrow> None | x # xs \<Rightarrow> Some x)) result"

definition solve ::
  "('v \<Rightarrow> string) \<Rightarrow> 'v description \<Rightarrow> (error + (string \<times> 'v option) list outcome) option" where
  "solve str description =
     (let csp0 = normalizeProblem description in
      case validateProblem csp0 of
        Inl e \<Rightarrow> Some (Inl e)
      | Inr u \<Rightarrow>
          (case buildNaryIndex (naryConstraints csp0) of
             Inl e \<Rightarrow> Some (Inl e)
           | Inr index \<Rightarrow>
               (let csp = csp0\<lparr>naryIndex := Some index\<rparr> in
                case cloneVars (variables csp) [] of
                  Inl e \<Rightarrow> Some (Inl e)
                | Inr unassigned \<Rightarrow>
                    (case backtrack str csp [] unassigned of
                       None \<Rightarrow> None
                     | Some (Inl e) \<Rightarrow> Some (Inl e)
                     | Some (Inr FAILURE) \<Rightarrow> Some (Inr FAILURE)
                     | Some (Inr (Result result)) \<Rightarrow> Some (Inr (Result (unwrap result)))))))"

section \<open>Termination of consistency propagation\<close>

text \<open>
  The sum of the domain sizes never grows in either loop, and an iteration that puts
  constraints back on the queue has made it strictly smaller; an iteration that
  changes nothing shortens the queue.
\<close>

definition totalSize :: "'v domains \<Rightarrow> nat" where
  "totalSize doms = sum_list (map (\<lambda>(k, d). length d) doms)"

lemma totalSize_update:
  "map_of al k = Some old \<Longrightarrow> totalSize (AList.update k v al) + length old = totalSize al + length v"
  by (induction al) (auto simp: totalSize_def)

lemma filterE_Inr:
  "filterE f xs = Inr ys \<Longrightarrow> ys = filter (\<lambda>x. f x = Inr True) xs"
  by (induction xs arbitrary: ys) (auto split: sum.splits if_splits)

lemma filter_same_length: "length (filter P xs) = length xs \<Longrightarrow> filter P xs = xs"
  by (metis filter_True length_filter_less less_irrefl)

lemma removeInconsistentValues_size:
  assumes "removeInconsistentValues h t p doms = Inr (removed, doms')"
  shows "(removed \<longrightarrow> totalSize doms' < totalSize doms) \<and> (\<not> removed \<longrightarrow> doms' = doms)"
proof (cases "map_of doms h")
  case None
  with assms show ?thesis by (simp add: removeInconsistentValues_def)
next
  case (Some hv)
  show ?thesis
  proof (cases "map_of doms t")
    case None
    with assms Some show ?thesis by (simp add: removeInconsistentValues_def)
  next
    case tv: (Some tv)
    from assms Some tv obtain valid where
      v: "filterE (\<lambda>t. someE (\<lambda>h. p h t) hv) tv = Inr valid"
      and r: "removed = (length valid \<noteq> length tv)" and d: "doms' = AList.update t valid doms"
      by (auto simp: removeInconsistentValues_def split: sum.splits)
    from filterE_Inr[OF v] have le: "length valid \<le> length tv" and
      same: "length valid = length tv \<Longrightarrow> valid = tv"
      by (auto simp: filter_same_length)
    from totalSize_update[OF tv, of valid] d
    have "totalSize doms' + length tv = totalSize doms + length valid" by simp
    moreover have "\<not> removed \<Longrightarrow> doms' = doms"
      using r d same tv by (simp add: update_triv)
    ultimately show ?thesis using r le by auto
  qed
qed

lemma runAC3_while_terminates: "\<exists>y. runAC3_while cs doms queue = Some y"
proof (induction "totalSize doms" arbitrary: doms queue rule: less_induct)
  case less
  show ?case
  proof (induction queue)
    case Nil
    then show ?case by (simp add: runAC3_while.simps)
  next
    case (Cons c rest)
    note shorter = Cons
    show ?case
    proof (cases "map_of doms (fst c) = None \<or> map_of doms (fst (snd c)) = None")
      case True
      with shorter show ?thesis
        by (subst runAC3_while.simps) (auto simp: Let_def)
    next
      case False
      show ?thesis
      proof (cases "removeInconsistentValues (fst c) (fst (snd c)) (snd (snd c)) doms")
        case (Inl e)
        with False show ?thesis
          by (subst runAC3_while.simps) (auto simp: Let_def)
      next
        case (Inr r)
        obtain removed doms' where r: "r = (removed, doms')" by (cases r)
        note sz = removeInconsistentValues_size[OF Inr[unfolded r]]
        show ?thesis
        proof (cases removed)
          case True
          with sz have "\<exists>y. runAC3_while cs doms' (rest @ incomingConstraints cs (fst (snd c))) = Some y"
            using less[of doms' "rest @ incomingConstraints cs (fst (snd c))"] by simp
          with True False Inr r show ?thesis
            by (subst runAC3_while.simps) (auto simp: Let_def)
        next
          case nr: False
          with sz have "doms' = doms" by simp
          with nr shorter False Inr r show ?thesis
            by (subst runAC3_while.simps) (auto simp: Let_def)
        qed
      qed
    qed
  qed
qed


lemma pruneVars_changed_mono:
  "pruneVars C vs doms ch = (ok, ch', doms') \<Longrightarrow> ch \<Longrightarrow> ch'"
  by (induction C vs doms ch rule: pruneVars.induct)
     (auto simp: Let_def split: option.splits if_splits)

lemma pruneVars_size:
  "pruneVars C vs doms ch = (ok, ch', doms') \<Longrightarrow>
   totalSize doms' \<le> totalSize doms \<and>
   (ok \<and> \<not> ch' \<longrightarrow> doms' = doms) \<and>
   (ok \<and> ch' \<and> \<not> ch \<longrightarrow> totalSize doms' < totalSize doms)"
proof (induction C vs doms ch rule: pruneVars.induct)
  case (1 C doms changedAny)
  then show ?case by simp
next
  case (2 C varName rest doms changedAny)
  show ?case
  proof (cases "map_of doms varName")
    case None
    with 2 show ?thesis by simp
  next
    case (Some d)
    define newDom where "newDom = filter (\<lambda>val. hasSupport varName val C doms) d"
    show ?thesis
    proof (cases "length newDom = length d")
      case True
      with 2 Some show ?thesis by (simp add: newDom_def)
    next
      case False
      have "length newDom \<le> length d" by (simp add: newDom_def)
      with False have lt: "length newDom < length d" by simp
      have sz: "totalSize (AList.update varName newDom doms) < totalSize doms"
        using totalSize_update[OF Some, of newDom] lt by simp
      show ?thesis
      proof (cases "length newDom = 0")
        case True
        with 2(4) Some False sz show ?thesis by (auto simp: newDom_def Let_def)
      next
        case ne: False
        from 2(4) Some False ne
        have *: "pruneVars C rest (AList.update varName newDom doms) True = (ok, ch', doms')"
          by (simp add: newDom_def Let_def)
        from 2(2)[OF Some newDom_def False refl ne *]
        have "totalSize doms' \<le> totalSize (AList.update varName newDom doms) \<and>
              (ok \<and> \<not> ch' \<longrightarrow> doms' = AList.update varName newDom doms)"
          by (simp add: newDom_def)
        moreover have "ch'"
          using pruneVars_changed_mono[OF *] by simp
        ultimately show ?thesis using sz by auto
      qed
    qed
  qed
qed


lemma runGAC_while_terminates: "\<exists>y. runGAC_while index doms queue = Some y"
proof (induction "totalSize doms" arbitrary: doms queue rule: less_induct)
  case less
  show ?case
  proof (induction queue)
    case Nil
    then show ?case by (subst runGAC_while.simps) auto
  next
    case (Cons C rest)
    obtain ok changedAny doms' where p: "pruneVars C (vars C) doms False = (ok, changedAny, doms')"
      by (cases "pruneVars C (vars C) doms False") auto
    note sz = pruneVars_size[OF p]
    show ?case
    proof (cases "ok \<and> changedAny")
      case True
      with sz have "\<exists>y. runGAC_while index doms' (enqueueRelated index (vars C) rest) = Some y"
        using less[of doms' "enqueueRelated index (vars C) rest"] by simp
      with True p show ?thesis
        by (subst runGAC_while.simps) auto
    next
      case False
      with sz have "ok \<Longrightarrow> doms' = doms" by simp
      with False Cons p show ?thesis
        by (subst runGAC_while.simps) auto
    qed
  qed
qed

lemma enforceConsistency_returns:
  "\<exists>r. enforceConsistency assigned unassigned csp = Some r"
proof -
  define doms where "doms = partialAssignment assigned unassigned"
  obtain a where a: "runAC3 doms (constraints csp) = Some a"
    using runAC3_while_terminates unfolding runAC3_def by blast
  have g: "\<exists>g. runGAC doms1 csp = Some g" for doms1
  proof (cases "case naryIndex csp of
                  Some index \<Rightarrow> Inr index
                | None \<Rightarrow> buildNaryIndex (naryConstraints csp)")
    case (Inl e)
    then show ?thesis by (simp add: runGAC_def)
  next
    case (Inr index)
    obtain y where "runGAC_while index doms1 (naryConstraints csp) = Some y"
      using runGAC_while_terminates by blast
    with Inr show ?thesis by (simp add: runGAC_def)
  qed
  show ?thesis
  proof (cases "length (constraints csp) \<noteq> 0")
    case True
    show ?thesis
    proof (cases a)
      case (Inl e)
      with a True show ?thesis by (simp add: enforceConsistency_def doms_def[symmetric])
    next
      case (Inr r)
      obtain ok doms1 where r: "r = (ok, doms1)" by (cases r)
      from g[of doms1] obtain gg where gg: "runGAC doms1 csp = Some gg" by blast
      with a True Inr r show ?thesis
        by (cases gg)
           (auto simp: enforceConsistency_def doms_def[symmetric] Let_def split: prod.splits)
    qed
  next
    case False
    from g[of doms] obtain gg where gg: "runGAC doms csp = Some gg" by blast
    with False show ?thesis
      by (cases gg)
         (auto simp: enforceConsistency_def doms_def[symmetric] Let_def split: prod.splits)
  qed
qed


text \<open>
  Claim C10. For every problem and every pair of mappings, \<open>enforceConsistency\<close>
  returns: the work-queue loop of \<open>runAC3\<close> halts from every state, the work-queue
  loop of \<open>runGAC\<close> halts from every state, and so does the pass that runs one after
  the other. In the model a run that does not halt has the value \<open>None\<close>.
\<close>

theorem enforceConsistency_terminates:
  "(\<exists>a. runAC3_while cs doms queue = Some a) \<and>
   (\<exists>g. runGAC_while index doms nqueue = Some g) \<and>
   (\<exists>r. enforceConsistency assigned unassigned csp = Some r)"
  using runAC3_while_terminates runGAC_while_terminates enforceConsistency_returns
  by blast

section \<open>Domains only shrink\<close>

definition entrywise :: "'v domains \<Rightarrow> 'v domains \<Rightarrow> bool" where
  "entrywise after before = list_all2 (\<lambda>a b. fst a = fst b \<and> subseq (snd a) (snd b)) after before"

lemma entrywise_refl: "entrywise doms doms"
  by (simp add: entrywise_def list_all2_refl)

lemma entrywise_trans: "entrywise c b \<Longrightarrow> entrywise b a \<Longrightarrow> entrywise c a"
  unfolding entrywise_def
  by (erule (1) list_all2_trans[rotated]) (auto intro: subseq_order.order_trans)

lemma entrywise_update:
  "map_of doms k = Some old \<Longrightarrow> subseq new old \<Longrightarrow> entrywise (AList.update k new doms) doms"
  unfolding entrywise_def
  by (induction doms) (auto simp: list_all2_refl split: if_splits)

lemma entrywise_map_of:
  "entrywise after before \<Longrightarrow> map_of after k = Some d' \<Longrightarrow>
   \<exists>d. map_of before k = Some d \<and> subseq d' d"
  unfolding entrywise_def
  by (induction after before rule: list_all2_induct) (auto split: if_splits)

lemma entrywise_keys: "entrywise after before \<Longrightarrow> map fst after = map fst before"
  unfolding entrywise_def
  by (induction after before rule: list_all2_induct) auto

lemma entrywise_removeInconsistentValues:
  "removeInconsistentValues h t p doms = Inr (r, doms') \<Longrightarrow> entrywise doms' doms"
  by (auto simp: removeInconsistentValues_def entrywise_refl split: option.splits sum.splits
      dest!: filterE_Inr intro!: entrywise_update)

lemma entrywise_runAC3_while:
  "runAC3_while cs doms queue = Some y \<Longrightarrow>
   (\<forall>ok doms'. y = Inr (ok, doms') \<longrightarrow> entrywise doms' doms)"
proof (induct rule: runAC3_while_induct)
  case (step rec cs doms queue y)
  then show ?case
    by (auto simp: Let_def entrywise_refl split: list.splits if_splits sum.splits prod.splits
        dest!: entrywise_removeInconsistentValues; blast intro: entrywise_trans)
qed

lemma entrywise_pruneVars:
  "pruneVars C vs doms ch = (ok, ch', doms') \<Longrightarrow> entrywise doms' doms"
proof (induction C vs doms ch rule: pruneVars.induct)
  case (1 C doms changedAny)
  then show ?case by (simp add: entrywise_refl)
next
  case (2 C varName rest doms changedAny)
  show ?case
  proof (cases "map_of doms varName")
    case None
    with 2 show ?thesis by simp
  next
    case (Some d)
    define newDom where "newDom = filter (\<lambda>val. hasSupport varName val C doms) d"
    have u: "entrywise (AList.update varName newDom doms) doms"
      using Some by (auto intro!: entrywise_update simp: newDom_def)
    show ?thesis
    proof (cases "length newDom = length d")
      case True
      with 2 Some show ?thesis by (simp add: newDom_def)
    next
      case False
      show ?thesis
      proof (cases "length newDom = 0")
        case True
        with 2(4) Some False u show ?thesis by (auto simp: newDom_def Let_def)
      next
        case ne: False
        from 2(4) Some False ne
        have *: "pruneVars C rest (AList.update varName newDom doms) True = (ok, ch', doms')"
          by (simp add: newDom_def Let_def)
        from 2(2)[OF Some newDom_def False refl ne *] u show ?thesis
          by (rule entrywise_trans)
      qed
    qed
  qed
qed

lemma entrywise_runGAC_while:
  "runGAC_while index doms queue = Some y \<Longrightarrow> entrywise (snd y) doms"
proof (induct rule: runGAC_while_induct)
  case (step rec index doms queue y)
  then show ?case
    by (auto simp: Let_def entrywise_refl split: list.splits if_splits prod.splits
        dest!: entrywise_pruneVars; (metis entrywise_trans snd_conv prod.collapse))
qed

lemma entrywise_enforceConsistency:
  "enforceConsistency A U csp = Some (Inr (Result r)) \<Longrightarrow> entrywise r (partialAssignment A U)"
  by (auto simp: enforceConsistency_def Let_def runAC3_def runGAC_def entrywise_refl
      split: if_splits option.splits sum.splits prod.splits
      dest!: entrywise_runAC3_while entrywise_runGAC_while intro: entrywise_trans)


text \<open>
  \<open>shrunk after before\<close>: the two mappings have the same keys in the same order, and
  every domain of \<open>after\<close> is a subsequence of the domain the key has in \<open>before\<close>
  (so it holds no new value and is no longer).
\<close>

definition shrunk :: "'v domains \<Rightarrow> 'v domains \<Rightarrow> bool" where
  "shrunk after before \<longleftrightarrow>
     map fst after = map fst before \<and>
     (\<forall>k d'. map_of after k = Some d' \<longrightarrow>
        (\<exists>d. map_of before k = Some d \<and> subseq d' d \<and> length d' \<le> length d))"

lemma entrywise_shrunk: "entrywise after before \<Longrightarrow> shrunk after before"
  unfolding shrunk_def
  by (meson entrywise_keys entrywise_map_of list_emb_length)

lemma runGAC_InrD:
  "runGAC doms csp = Some (Inr y) \<Longrightarrow>
   \<exists>index. runGAC_while index doms (naryConstraints csp) = Some y"
  by (auto simp: runGAC_def split: sum.splits option.splits)

text \<open>Scenario A of the specification, as a problem to evaluate the solver on.\<close>

definition scenarioA :: "int problem" where
  "scenarioA =
     \<lparr> variables = [(''x'', ArrayDomain [1, 2, 3]), (''y'', ArrayDomain [1, 2, 3])],
       constraints = [(''x'', ''y'', \<lambda>h t. Inr (h < t))],
       naryConstraints = [],
       naryIndex = Some [] \<rparr>"

text \<open>
  Claim C7. After a consistency pass every variable's domain is a subsequence of its
  domain in the input mapping \<open>partialAssignment assigned unassigned\<close>: for the
  mapping a successful pass returns, and for the state in which \<open>runAC3\<close> or \<open>runGAC\<close>
  leaves \<open>variables\<close>, whether the phase reports success or failure.
\<close>

theorem consistency_pass_shrinks:
  "(\<forall>ok doms'. runAC3 doms cs = Some (Inr (ok, doms')) \<longrightarrow> shrunk doms' doms) \<and>
   (\<forall>ok doms'. runGAC doms csp = Some (Inr (ok, doms')) \<longrightarrow> shrunk doms' doms) \<and>
   (\<forall>doms1 ok doms2.
      runAC3 (partialAssignment assigned unassigned) (constraints csp) = Some (Inr (True, doms1)) \<and>
      runGAC doms1 csp = Some (Inr (ok, doms2)) \<longrightarrow>
      shrunk doms2 (partialAssignment assigned unassigned)) \<and>
   (\<forall>r. enforceConsistency assigned unassigned csp = Some (Inr (Result r)) \<longrightarrow>
      shrunk r (partialAssignment assigned unassigned))"
proof (intro conjI allI impI)
  fix ok doms'
  assume "runAC3 doms cs = Some (Inr (ok, doms'))"
  then show "shrunk doms' doms"
    unfolding runAC3_def by (blast dest: entrywise_runAC3_while intro: entrywise_shrunk)
next
  fix ok doms'
  assume "runGAC doms csp = Some (Inr (ok, doms'))"
  then obtain index where "runGAC_while index doms (naryConstraints csp) = Some (ok, doms')"
    by (blast dest: runGAC_InrD)
  then have "entrywise (snd (ok, doms')) doms"
    by (rule entrywise_runGAC_while)
  then show "shrunk doms' doms"
    by (simp add: entrywise_shrunk)
next
  fix doms1 ok doms2
  assume "runAC3 (partialAssignment assigned unassigned) (constraints csp) = Some (Inr (True, doms1)) \<and>
      runGAC doms1 csp = Some (Inr (ok, doms2))"
  then have a: "runAC3_while (constraints csp) (partialAssignment assigned unassigned) (constraints csp)
      = Some (Inr (True, doms1))"
    and g: "runGAC doms1 csp = Some (Inr (ok, doms2))"
    unfolding runAC3_def by simp_all
  from a have "entrywise doms1 (partialAssignment assigned unassigned)"
    by (blast dest: entrywise_runAC3_while)
  moreover from g obtain index where
    "runGAC_while index doms1 (naryConstraints csp) = Some (ok, doms2)"
    by (blast dest: runGAC_InrD)
  then have "entrywise (snd (ok, doms2)) doms1"
    by (rule entrywise_runGAC_while)
  ultimately have "entrywise doms1 (partialAssignment assigned unassigned)" "entrywise doms2 doms1"
    by simp_all
  then show "shrunk doms2 (partialAssignment assigned unassigned)"
    by (blast intro: entrywise_shrunk entrywise_trans)
next
  fix r
  assume "enforceConsistency assigned unassigned csp = Some (Inr (Result r))"
  then show "shrunk r (partialAssignment assigned unassigned)"
    by (blast dest: entrywise_enforceConsistency intro: entrywise_shrunk)
qed

theorem consistency_pass_shrinks_witness:
  "enforceConsistency [(''x'', [2])] [(''y'', [1, 2, 3])] scenarioA
     = Some (Inr (Result [(''y'', [3]), (''x'', [2])])) \<and>
   shrunk [(''y'', [3 :: int]), (''x'', [2])] (partialAssignment [(''x'', [2])] [(''y'', [1, 2, 3])])"
proof -
  have "enforceConsistency [(''x'', [2])] [(''y'', [1, 2, 3])] scenarioA
          = Some (Inr (Result [(''y'', [3]), (''x'', [2])]))"
    by code_simp
  with consistency_pass_shrinks[where assigned = "[(''x'', [2])]"
      and unassigned = "[(''y'', [1, 2, 3])]" and csp = scenarioA]
  show ?thesis by blast
qed

section \<open>The support oracle decides extendability\<close>

lemma collectOthers_eq:
  "collectOthers x vs doms acc =
     (if \<forall>y \<in> set vs. y \<noteq> x \<longrightarrow> (\<exists>d. map_of doms y = Some d \<and> d \<noteq> [])
      then Some (acc @ filter (\<lambda>y. y \<noteq> x) vs) else None)"
  by (induction vs arbitrary: acc) (auto split: option.splits)

lemma dfs_choice:
  "dfs pred (map (\<lambda>k. (k, D k)) ks) a \<longleftrightarrow>
     (\<exists>choice. (\<forall>k \<in> set ks. choice k \<in> set (D k)) \<and>
        pred (\<lambda>y. if y \<in> set ks then Some (choice y) else a y) = Inr True)"
proof (induction ks arbitrary: a)
  case Nil
  show ?case by (auto split: sum.splits)
next
  case (Cons k ks)
  have "dfs pred (map (\<lambda>k. (k, D k)) (k # ks)) a
        \<longleftrightarrow> (\<exists>val \<in> set (D k). dfs pred (map (\<lambda>k. (k, D k)) ks) (a(k \<mapsto> val)))"
    by (simp add: list_ex_iff)
  also have "\<dots> \<longleftrightarrow> (\<exists>val \<in> set (D k). \<exists>choice. (\<forall>k' \<in> set ks. choice k' \<in> set (D k')) \<and>
        pred (\<lambda>y. if y \<in> set ks then Some (choice y) else (a(k \<mapsto> val)) y) = Inr True)"
    by (simp only: Cons.IH)
  also have "\<dots> \<longleftrightarrow> (\<exists>choice. (\<forall>k' \<in> set (k # ks). choice k' \<in> set (D k')) \<and>
        pred (\<lambda>y. if y \<in> set (k # ks) then Some (choice y) else a y) = Inr True)"
    (is "?L \<longleftrightarrow> ?R")
  proof
    assume ?L
    then obtain val choice where val: "val \<in> set (D k)"
      and ch: "\<forall>k' \<in> set ks. choice k' \<in> set (D k')"
      and p: "pred (\<lambda>y. if y \<in> set ks then Some (choice y) else (a(k \<mapsto> val)) y) = Inr True"
      by blast
    define choice' where "choice' = (if k \<in> set ks then choice else choice(k := val))"
    have "(\<lambda>y. if y \<in> set (k # ks) then Some (choice' y) else a y)
          = (\<lambda>y. if y \<in> set ks then Some (choice y) else (a(k \<mapsto> val)) y)"
      by (auto simp: choice'_def fun_eq_iff)
    moreover have "\<forall>k' \<in> set (k # ks). choice' k' \<in> set (D k')"
      using val ch by (auto simp: choice'_def)
    ultimately show ?R using p by (intro exI[of _ choice']) simp
  next
    assume ?R
    then obtain choice where ch: "\<forall>k' \<in> set (k # ks). choice k' \<in> set (D k')"
      and p: "pred (\<lambda>y. if y \<in> set (k # ks) then Some (choice y) else a y) = Inr True"
      by blast
    have "(\<lambda>y. if y \<in> set ks then Some (choice y) else (a(k \<mapsto> choice k)) y)
          = (\<lambda>y. if y \<in> set (k # ks) then Some (choice y) else a y)"
      by (auto simp: fun_eq_iff)
    with ch p show ?L
      by (intro bexI[of _ "choice k"] exI[of _ choice]) simp_all
  qed
  finally show ?case .
qed

lemma hasSupport_choice:
  "hasSupport x v C doms \<longleftrightarrow>
     (\<exists>choice. (\<forall>y \<in> set (vars C) - {x}. \<exists>d. map_of doms y = Some d \<and> choice y \<in> set d) \<and>
        predicate C ((\<lambda>y. if y \<in> set (vars C) then Some (choice y) else None)(x \<mapsto> v)) = Inr True)"
  (is "?L \<longleftrightarrow> ?R")
proof (cases "\<forall>y \<in> set (vars C). y \<noteq> x \<longrightarrow> (\<exists>d. map_of doms y = Some d \<and> d \<noteq> [])")
  case False
  then obtain y where y: "y \<in> set (vars C) - {x}" "\<forall>d. map_of doms y = Some d \<longrightarrow> d = []"
    by auto
  have "\<not> ?R"
  proof
    assume ?R
    then obtain choice where "\<forall>y \<in> set (vars C) - {x}. \<exists>d. map_of doms y = Some d \<and> choice y \<in> set d"
      by blast
    with y(1) obtain d where "map_of doms y = Some d" "choice y \<in> set d" by blast
    with y(2) show False by auto
  qed
  moreover have "collectOthers x (vars C) doms [] = None"
    using False by (simp only: collectOthers_eq if_False)
  then have "\<not> ?L" by (simp add: hasSupport_def)
  ultimately show ?thesis by simp
next
  case dom: True
  define others where "others = filter (\<lambda>y. y \<noteq> x) (vars C)"
  have Some: "collectOthers x (vars C) doms [] = Some others"
    using dom by (simp add: collectOthers_eq others_def)
  define sorted where "sorted = sort_key (\<lambda>v. length (domainOf doms v)) others"
  have set_sorted: "set sorted = set (vars C) - {x}"
    by (auto simp: sorted_def others_def)
  have "?L \<longleftrightarrow> dfs (predicate C) (map (\<lambda>k. (k, domainOf doms k)) sorted) [x \<mapsto> v]"
  proof -
    have "zip sorted (map (domainOf doms) sorted) = map (\<lambda>k. (k, domainOf doms k)) sorted"
      by (induction sorted) auto
    then show ?thesis
      by (simp add: hasSupport_def Some sorted_def[symmetric] Let_def)
  qed
  also have "\<dots> \<longleftrightarrow> (\<exists>choice. (\<forall>k \<in> set sorted. choice k \<in> set (domainOf doms k)) \<and>
        predicate C (\<lambda>y. if y \<in> set sorted then Some (choice y) else [x \<mapsto> v] y) = Inr True)"
    by (rule dfs_choice)
  also have "\<dots> \<longleftrightarrow> ?R"
  proof -
    have t: "(\<lambda>y. if y \<in> set sorted then Some (choice y) else [x \<mapsto> v] y)
          = (\<lambda>y. if y \<in> set (vars C) then Some (choice y) else None)(x \<mapsto> v)" for choice
      by (auto simp: set_sorted fun_eq_iff)
    have d: "(\<forall>k \<in> set sorted. choice k \<in> set (domainOf doms k))
          \<longleftrightarrow> (\<forall>y \<in> set (vars C) - {x}. \<exists>d. map_of doms y = Some d \<and> choice y \<in> set d)" for choice
    proof -
      have "choice k \<in> set (domainOf doms k) \<longleftrightarrow> (\<exists>d. map_of doms k = Some d \<and> choice k \<in> set d)"
        if "k \<in> set (vars C) - {x}" for k
        using dom that by (auto simp: domainOf_def)
      then show ?thesis unfolding set_sorted by blast
    qed
    show ?thesis by (simp only: t d)
  qed
  finally show ?thesis .
qed


text \<open>The constraint of Scenario B of the specification: all different, with sum 6.\<close>

definition scenarioB :: "int nary" where
  "scenarioB =
     \<lparr> ident = 0, vars = [''a'', ''b'', ''c''],
       predicate = (\<lambda>t. case (t ''a'', t ''b'', t ''c'') of
                      (Some a, Some b, Some c) \<Rightarrow>
                        Inr (a \<noteq> b \<and> b \<noteq> c \<and> a \<noteq> c \<and> a + b + c = 6)
                    | _ \<Rightarrow> Inl (Thrown ''undefined'')) \<rparr>"

text \<open>
  Claim C4. \<open>hasSupport x v C variables\<close> is true exactly when one value can be chosen
  from the current domain of every other participant of \<open>C\<close> so that the predicate of
  \<open>C\<close> is truthy on the tuple that binds \<open>x\<close> to \<open>v\<close> and every other participant to its
  chosen value. In particular it is false when another participant has no domain or
  an empty one. A predicate that throws is not truthy, so the statement needs no
  assumption on the predicate.
\<close>

theorem hasSupport_correct:
  "(hasSupport x v C doms \<longleftrightarrow>
      (\<exists>choice.
         (\<forall>y \<in> set (vars C) - {x}. \<exists>d. map_of doms y = Some d \<and> choice y \<in> set d) \<and>
         predicate C ((\<lambda>y. if y \<in> set (vars C) then Some (choice y) else None)(x \<mapsto> v))
           = Inr True)) \<and>
   ((\<exists>y \<in> set (vars C) - {x}. map_of doms y = None \<or> map_of doms y = Some []) \<longrightarrow>
      \<not> hasSupport x v C doms)"
proof (intro conjI impI)
  show "hasSupport x v C doms \<longleftrightarrow>
      (\<exists>choice.
         (\<forall>y \<in> set (vars C) - {x}. \<exists>d. map_of doms y = Some d \<and> choice y \<in> set d) \<and>
         predicate C ((\<lambda>y. if y \<in> set (vars C) then Some (choice y) else None)(x \<mapsto> v))
           = Inr True)"
    by (rule hasSupport_choice)
next
  assume "\<exists>y \<in> set (vars C) - {x}. map_of doms y = None \<or> map_of doms y = Some []"
  then obtain y where y: "y \<in> set (vars C) - {x}" "map_of doms y = None \<or> map_of doms y = Some []"
    by blast
  show "\<not> hasSupport x v C doms"
  proof
    assume "hasSupport x v C doms"
    then obtain choice where
      "\<forall>y \<in> set (vars C) - {x}. \<exists>d. map_of doms y = Some d \<and> choice y \<in> set d"
      unfolding hasSupport_choice by blast
    with y(1) obtain d where "map_of doms y = Some d" "choice y \<in> set d" by blast
    with y(2) show False by auto
  qed
qed

theorem hasSupport_correct_witness:
  "hasSupport ''a'' 1 scenarioB [(''a'', [1, 2, 3]), (''b'', [1, 2]), (''c'', [2, 3])] \<and>
   (\<exists>choice.
      (\<forall>y \<in> set (vars scenarioB) - {''a''}.
         \<exists>d. map_of [(''a'', [1, 2, 3]), (''b'', [1, 2]), (''c'', [2, 3])] y = Some d \<and> choice y \<in> set d) \<and>
      predicate scenarioB
        ((\<lambda>y. if y \<in> set (vars scenarioB) then Some (choice y) else None)(''a'' \<mapsto> 1)) = Inr True) \<and>
   \<not> hasSupport ''a'' 1 scenarioB [(''a'', [1, 2, 3]), (''b'', []), (''c'', [2, 3])]"
proof -
  have s: "hasSupport ''a'' 1 scenarioB [(''a'', [1, 2, 3]), (''b'', [1, 2]), (''c'', [2, 3])]"
    by code_simp
  have e: "\<exists>y \<in> set (vars scenarioB) - {''a''}.
      map_of [(''a'', [1, 2, 3 :: int]), (''b'', []), (''c'', [2, 3])] y = None \<or>
      map_of [(''a'', [1, 2, 3 :: int]), (''b'', []), (''c'', [2, 3])] y = Some []"
    by (simp add: scenarioB_def)
  from s e
    hasSupport_correct[of "''a''" 1 scenarioB "[(''a'', [1, 2, 3]), (''b'', [1, 2]), (''c'', [2, 3])]"]
    hasSupport_correct[of "''a''" 1 scenarioB "[(''a'', [1, 2, 3]), (''b'', []), (''c'', [2, 3])]"]
  show ?thesis by blast
qed

text \<open>
  The try/catch of \<open>dfs\<close>: the oracle gives the same answer for a predicate and for
  the predicate that answers \<open>false\<close> wherever the first one throws.
\<close>

definition failClosed :: "('v tuple \<Rightarrow> error + bool) \<Rightarrow> 'v tuple \<Rightarrow> error + bool" where
  "failClosed pred t = (case pred t of Inl e \<Rightarrow> Inr False | Inr b \<Rightarrow> Inr b)"

lemma dfs_failClosed: "dfs (failClosed pred) od a = dfs pred od a"
proof (induction od arbitrary: a)
  case Nil
  show ?case by (simp add: failClosed_def split: sum.splits)
next
  case (Cons p od)
  obtain k d where "p = (k, d)" by (cases p)
  have "dfs (failClosed pred) od (a(k \<mapsto> val)) = dfs pred od (a(k \<mapsto> val))" for val
    by (rule Cons.IH)
  then show ?case by (simp only: \<open>p = (k, d)\<close> dfs.simps)
qed

lemma hasSupport_failClosed:
  "hasSupport x v (C\<lparr>predicate := failClosed (predicate C)\<rparr>) doms = hasSupport x v C doms"
  by (simp add: hasSupport_def dfs_failClosed Let_def split: option.splits)

section \<open>The search state\<close>

lemma cloneAssignment_id [simp]: "cloneAssignment a = a"
  by (induction a) (auto simp: cloneAssignment_def)

text \<open>
  The assigned and the unassigned mapping of a search state are objects (no key twice)
  that share no key.
\<close>

definition wfState :: "'v domains \<Rightarrow> 'v domains \<Rightarrow> bool" where
  "wfState A U \<longleftrightarrow> distinct (map fst U @ map fst A)"

lemma update_fresh: "k \<notin> fst ` set al \<Longrightarrow> AList.update k v al = al @ [(k, v)]"
  by (induction al) auto

lemma foldl_update_fresh:
  "distinct (map fst init @ map fst xs) \<Longrightarrow>
   foldl (\<lambda>partial (key, d). AList.update key d partial) init xs = init @ xs"
proof (induction xs arbitrary: init)
  case Nil
  then show ?case by simp
next
  case (Cons x xs)
  obtain k d where x: "x = (k, d)" by (cases x)
  from Cons.prems x have "AList.update k d init = init @ [(k, d)]"
    by (intro update_fresh) auto
  moreover from Cons.prems x have "distinct (map fst (init @ [(k, d)]) @ map fst xs)" by auto
  ultimately show ?case using Cons.IH[of "init @ [(k, d)]"] x by simp
qed

lemma partialAssignment_wf: "wfState A U \<Longrightarrow> partialAssignment A U = U @ A"
  unfolding partialAssignment_def wfState_def
  using foldl_update_fresh[of "[]" U] foldl_update_fresh[of U A] by simp


lemma split_filters:
  assumes "wfState A U" "map fst cU = map fst U" "map fst cA = map fst A"
  shows "filter (\<lambda>(key, d). map_of A key \<noteq> None) (cU @ cA) = cA"
    and "filter (\<lambda>(key, d). map_of A key = None) (cU @ cA) = cU"
proof -
  have inA: "\<forall>x \<in> set cA. map_of A (fst x) \<noteq> None"
    using assms(3) by (metis (no_types, lifting) image_eqI image_set map_of_eq_None_iff)
  have notA: "\<forall>x \<in> set cU. map_of A (fst x) = None"
  proof
    fix x assume "x \<in> set cU"
    then have "fst x \<in> set (map fst U)" using assms(2) by (metis image_eqI image_set)
    with assms(1) have "fst x \<notin> fst ` set A" by (auto simp: wfState_def)
    then show "map_of A (fst x) = None" by (simp add: map_of_eq_None_iff)
  qed
  show "filter (\<lambda>(key, d). map_of A key \<noteq> None) (cU @ cA) = cA"
    using inA notA by (auto simp: case_prod_beta filter_id_conv filter_empty_conv)
  show "filter (\<lambda>(key, d). map_of A key = None) (cU @ cA) = cU"
    using inA notA by (auto simp: case_prod_beta filter_id_conv filter_empty_conv)
qed






section \<open>Completeness on problems without constraints\<close>

text \<open>The decimal numeral of an integer, the property key of a number.\<close>

fun digitsOf :: "nat \<Rightarrow> string" where
  "digitsOf n =
     (if n < 10 then [char_of (48 + n)] else digitsOf (n div 10) @ [char_of (48 + n mod 10)])"

definition decimal :: "int \<Rightarrow> string" where
  "decimal i = (if i < 0 then CHR ''-'' # digitsOf (nat (- i)) else digitsOf (nat i))"

text \<open>The elements of a value if it is an array, and none otherwise.\<close>

fun elements :: "'v jsdomain \<Rightarrow> 'v list" where
  "elements (ArrayDomain xs) = xs"
| "elements NotAnArray = []"









lemma normalized_domain:
  "(case dm of ArrayDomain xs \<Rightarrow> ArrayDomain xs | NotAnArray \<Rightarrow> ArrayDomain [])
   = ArrayDomain (elements dm)"
  by (cases dm) simp_all








section \<open>Soundness of the search\<close>

text \<open>
  A mapping in which every domain has at most one value is what the last consistency
  pass of a successful search works on. \<open>arcOK\<close> and \<open>gacOK\<close> say that revising the
  constraint on the mapping changes nothing: every tail value has a supporting head
  value, every value of a participant has support.
\<close>

definition single :: "'v domains \<Rightarrow> bool" where
  "single doms \<longleftrightarrow> (\<forall>k d. map_of doms k = Some d \<longrightarrow> length d \<le> 1)"

definition arcOK :: "'v arc \<Rightarrow> 'v domains \<Rightarrow> bool" where
  "arcOK c doms \<longleftrightarrow>
     map_of doms (fst c) = None \<or> map_of doms (fst (snd c)) = None \<or>
     removeInconsistentValues (fst c) (fst (snd c)) (snd (snd c)) doms = Inr (False, doms)"

definition gacOK :: "'v nary \<Rightarrow> 'v domains \<Rightarrow> bool" where
  "gacOK C doms \<longleftrightarrow>
     (\<forall>x \<in> set (vars C). \<forall>d. map_of doms x = Some d \<longrightarrow> (\<forall>v \<in> set d. hasSupport x v C doms))"

lemma removeInconsistentValues_single:
  assumes "single doms" "removeInconsistentValues h t p doms = Inr (True, doms')"
  shows "map_of doms' t = Some []"
proof -
  from assms(2) obtain hv tv valid where tv: "map_of doms t = Some tv"
    and v: "filterE (\<lambda>t. someE (\<lambda>h. p h t) hv) tv = Inr valid"
    and r: "length valid \<noteq> length tv" and d: "doms' = AList.update t valid doms"
    by (auto simp: removeInconsistentValues_def split: option.splits sum.splits)
  from assms(1) tv have "length tv \<le> 1" by (auto simp: single_def)
  moreover from filterE_Inr[OF v] have "length valid \<le> length tv" by simp
  ultimately have "valid = []" using r by (cases valid) auto
  then show ?thesis by (simp add: d update_conv')
qed

lemma runAC3_while_single:
  "runAC3_while cs doms queue = Some y \<Longrightarrow>
   single doms \<longrightarrow> (\<forall>doms'. y = Inr (True, doms') \<longrightarrow> doms' = doms \<and> (\<forall>c \<in> set queue. arcOK c doms))"
proof (induct rule: runAC3_while_induct)
  case (step rec cs doms queue y)
  show ?case
  proof (intro impI allI)
    fix doms'
    assume s: "single doms" and y: "y = Inr (True, doms')"
    show "doms' = doms \<and> (\<forall>c \<in> set queue. arcOK c doms)"
    proof (cases queue)
      case Nil
      with step(2) y show ?thesis by simp
    next
      case (Cons c rest)
      show ?thesis
      proof (cases "map_of doms (fst c) = None \<or> map_of doms (fst (snd c)) = None")
        case True
        with step(2) Cons have "rec cs doms rest = Some y" by (auto simp: Let_def)
        from step(1)[OF this] s y have "doms' = doms \<and> (\<forall>c \<in> set rest. arcOK c doms)" by blast
        with True Cons show ?thesis by (auto simp: arcOK_def)
      next
        case False
        with step(2) Cons y obtain removed doms1 where
          r: "removeInconsistentValues (fst c) (fst (snd c)) (snd (snd c)) doms = Inr (removed, doms1)"
          by (auto simp: Let_def split: sum.splits)
        show ?thesis
        proof (cases removed)
          case True
          with r have "removeInconsistentValues (fst c) (fst (snd c)) (snd (snd c)) doms = Inr (True, doms1)"
            by simp
          from removeInconsistentValues_single[OF s this] have "map_of doms1 (fst (snd c)) = Some []" .
          with step(2) Cons False r True y show ?thesis by (auto simp: Let_def)
        next
          case nr: False
          with removeInconsistentValues_size[OF r] have same: "doms1 = doms" by simp
          with step(2) Cons False r nr have "rec cs doms rest = Some y" by (auto simp: Let_def)
          from step(1)[OF this] s y have "doms' = doms \<and> (\<forall>c \<in> set rest. arcOK c doms)" by blast
          with Cons r nr same show ?thesis by (auto simp: arcOK_def)
        qed
      qed
    qed
  qed
qed

lemma pruneVars_single:
  "single doms \<Longrightarrow> pruneVars C vs doms ch = (True, ch', doms') \<Longrightarrow>
   doms' = doms \<and> ch' = ch \<and>
   (\<forall>x \<in> set vs. \<forall>d. map_of doms x = Some d \<longrightarrow> (\<forall>v \<in> set d. hasSupport x v C doms))"
proof (induction vs)
  case Nil
  then show ?case by simp
next
  case (Cons x vs)
  show ?case
  proof (cases "map_of doms x")
    case None
    with Cons show ?thesis by simp
  next
    case (Some d)
    define newDom where "newDom = filter (\<lambda>val. hasSupport x val C doms) d"
    from Cons.prems(1) Some have le: "length d \<le> 1" by (auto simp: single_def)
    have eq: "length newDom = length d"
    proof (rule ccontr)
      assume ne: "length newDom \<noteq> length d"
      have "length newDom \<le> length d" by (simp add: newDom_def)
      with ne le have "length newDom = 0" by arith
      with Cons.prems(2) Some ne show False by (simp add: newDom_def Let_def)
    qed
    then have all: "\<forall>v \<in> set d. hasSupport x v C doms"
      unfolding newDom_def by (metis filter_same_length filter_id_conv)
    from Cons.prems(2) Some eq have "pruneVars C vs doms ch = (True, ch', doms')"
      by (simp add: newDom_def Let_def)
    from Cons.IH[OF Cons.prems(1) this] all Some show ?thesis by auto
  qed
qed

lemma runGAC_while_single:
  "runGAC_while index doms queue = Some y \<Longrightarrow>
   single doms \<longrightarrow> fst y \<longrightarrow> snd y = doms \<and> (\<forall>C \<in> set queue. gacOK C doms)"
proof (induct rule: runGAC_while_induct)
  case (step rec index doms queue y)
  show ?case
  proof (intro impI)
    assume s: "single doms" and y: "fst y"
    show "snd y = doms \<and> (\<forall>C \<in> set queue. gacOK C doms)"
    proof (cases queue)
      case Nil
      with step(2) show ?thesis by auto
    next
      case (Cons C rest)
      obtain ok changedAny doms1 where p: "pruneVars C (vars C) doms False = (ok, changedAny, doms1)"
        by (cases "pruneVars C (vars C) doms False") auto
      have ok: ok using step(2) Cons p y by (auto split: if_splits)
      from pruneVars_single[OF s p[unfolded eqTrueI[OF ok]]]
      have same: "doms1 = doms" and nc: "\<not> changedAny" and g: "gacOK C doms"
        by (auto simp: gacOK_def)
      from step(2) Cons p ok nc same have "rec index doms rest = Some y" by simp
      from step(1)[OF this] s y have "snd y = doms \<and> (\<forall>C \<in> set rest. gacOK C doms)" by blast
      with g Cons show ?thesis by auto
    qed
  qed
qed

lemma enforceConsistency_single:
  assumes "single (partialAssignment A U)"
    and "enforceConsistency A U csp = Some (Inr (Result c))"
  shows "c = partialAssignment A U \<and> (\<forall>a \<in> set (constraints csp). arcOK a c) \<and>
         (\<forall>C \<in> set (naryConstraints csp). gacOK C c)"
proof -
  define doms where "doms = partialAssignment A U"
  have ac: "\<exists>doms1. (if length (constraints csp) \<noteq> 0 then runAC3 doms (constraints csp)
                 else Some (Inr (True, doms))) = Some (Inr (True, doms1)) \<and>
              (if length (naryConstraints csp) \<noteq> 0 then runGAC doms1 csp
               else Some (Inr (True, doms1))) = Some (Inr (True, c))"
    using assms(2) unfolding enforceConsistency_def doms_def[symmetric] Let_def
    by (auto split: option.splits sum.splits prod.splits if_splits)
  then obtain doms1 where
    a: "(if length (constraints csp) \<noteq> 0 then runAC3 doms (constraints csp)
         else Some (Inr (True, doms))) = Some (Inr (True, doms1))"
    and g: "(if length (naryConstraints csp) \<noteq> 0 then runGAC doms1 csp
             else Some (Inr (True, doms1))) = Some (Inr (True, c))"
    by blast
  have s: "single doms" using assms(1) by (simp add: doms_def)
  have a': "doms1 = doms \<and> (\<forall>a \<in> set (constraints csp). arcOK a doms)"
  proof (cases "constraints csp = []")
    case True
    with a show ?thesis by simp
  next
    case False
    with a have "runAC3_while (constraints csp) doms (constraints csp) = Some (Inr (True, doms1))"
      by (simp add: runAC3_def)
    from runAC3_while_single[OF this] s show ?thesis by blast
  qed
  have g': "c = doms \<and> (\<forall>C \<in> set (naryConstraints csp). gacOK C doms)"
  proof (cases "naryConstraints csp = []")
    case True
    with g a' show ?thesis by simp
  next
    case False
    with g a' obtain index where
      "runGAC_while index doms (naryConstraints csp) = Some (True, c)"
      by (auto dest: runGAC_InrD)
    from runGAC_while_single[OF this] s show ?thesis by simp
  qed
  from a' g' show ?thesis by (simp add: doms_def)
qed

text \<open>
  \<open>solved csp R\<close>: in the mapping \<open>R\<close> the two ends of every binary constraint are
  bound to single values on which the predicate is truthy, and the predicate of every
  n-ary constraint is truthy on the tuple of its participants' values.
  \<open>wfProblem csp K\<close> is what \<open>validateProblem\<close> establishes for the declared names \<open>K\<close>.
\<close>

definition solved :: "'v problem \<Rightarrow> 'v domains \<Rightarrow> bool" where
  "solved csp R \<longleftrightarrow>
     (\<forall>c \<in> set (constraints csp).
        \<exists>a b. map_of R (fst c) = Some [a] \<and> map_of R (fst (snd c)) = Some [b] \<and>
              snd (snd c) a b = Inr True) \<and>
     (\<forall>C \<in> set (naryConstraints csp).
        predicate C (\<lambda>y. if y \<in> set (vars C) then map_option hd (map_of R y) else None) = Inr True)"

definition wfProblem :: "'v problem \<Rightarrow> string set \<Rightarrow> bool" where
  "wfProblem csp K \<longleftrightarrow>
     (\<forall>c \<in> set (constraints csp). fst c \<in> K \<and> fst (snd c) \<in> K) \<and>
     (\<forall>C \<in> set (naryConstraints csp). vars C \<noteq> [] \<and> set (vars C) \<subseteq> K)"

lemma arcOK_singleton:
  assumes "arcOK c R" "map_of R (fst c) = Some [a]" "map_of R (fst (snd c)) = Some [b]"
  shows "snd (snd c) a b = Inr True"
proof -
  from assms have "removeInconsistentValues (fst c) (fst (snd c)) (snd (snd c)) R = Inr (False, R)"
    by (simp add: arcOK_def)
  with assms(2,3) show ?thesis
    by (auto simp: removeInconsistentValues_def split: sum.splits if_splits)
qed

lemma gacOK_singleton:
  assumes g: "gacOK C R" and ne: "vars C \<noteq> []"
    and sing: "\<forall>y \<in> set (vars C). \<exists>v. map_of R y = Some [v]"
  shows "predicate C (\<lambda>y. if y \<in> set (vars C) then map_option hd (map_of R y) else None) = Inr True"
proof -
  from ne obtain x where x: "x \<in> set (vars C)" by (cases "vars C") auto
  with sing obtain a where a: "map_of R x = Some [a]" by blast
  with g x have "hasSupport x a C R" by (auto simp: gacOK_def)
  then obtain choice where
    ch: "\<forall>y \<in> set (vars C) - {x}. \<exists>d. map_of R y = Some d \<and> choice y \<in> set d"
    and p: "predicate C ((\<lambda>y. if y \<in> set (vars C) then Some (choice y) else None)(x \<mapsto> a)) = Inr True"
    unfolding hasSupport_choice by blast
  have "(\<lambda>y. if y \<in> set (vars C) then Some (choice y) else None)(x \<mapsto> a)
        = (\<lambda>y. if y \<in> set (vars C) then map_option hd (map_of R y) else None)"
  proof
    fix y
    show "((\<lambda>y. if y \<in> set (vars C) then Some (choice y) else None)(x \<mapsto> a)) y
          = (if y \<in> set (vars C) then map_option hd (map_of R y) else None)"
    proof (cases "y = x")
      case True
      with x a show ?thesis by simp
    next
      case False
      show ?thesis
      proof (cases "y \<in> set (vars C)")
        case True
        with sing obtain v where v: "map_of R y = Some [v]" by blast
        from ch True False obtain d where "map_of R y = Some d" "choice y \<in> set d" by blast
        with v have "choice y = v" by simp
        with True False v show ?thesis by simp
      next
        case nin: False
        with False show ?thesis by simp
      qed
    qed
  qed
  with p show ?thesis by simp
qed

lemma solved_from_single:
  assumes wfP: "wfProblem csp K" and keys: "fst ` set R = K"
    and sing: "\<forall>k d. map_of R k = Some d \<longrightarrow> length d = 1"
    and arcs: "\<forall>a \<in> set (constraints csp). arcOK a R"
    and gac: "\<forall>C \<in> set (naryConstraints csp). gacOK C R"
  shows "solved csp R"
proof -
  have val: "\<exists>v. map_of R k = Some [v]" if "k \<in> K" for k
  proof -
    from that keys have "map_of R k \<noteq> None" by (simp add: map_of_eq_None_iff)
    then obtain d where d: "map_of R k = Some d" by blast
    with sing have "length d = 1" by blast
    then obtain v where "d = [v]" by (cases d) auto
    with d show ?thesis by blast
  qed
  have "\<exists>a b. map_of R (fst c) = Some [a] \<and> map_of R (fst (snd c)) = Some [b] \<and>
              snd (snd c) a b = Inr True" if c: "c \<in> set (constraints csp)" for c
  proof -
    from wfP c have "fst c \<in> K" "fst (snd c) \<in> K" by (auto simp: wfProblem_def)
    with val obtain a b where ab: "map_of R (fst c) = Some [a]" "map_of R (fst (snd c)) = Some [b]"
      by blast
    from arcs c have "arcOK c R" by blast
    from arcOK_singleton[OF this ab] ab show ?thesis by blast
  qed
  moreover
  have "predicate C (\<lambda>y. if y \<in> set (vars C) then map_option hd (map_of R y) else None) = Inr True"
    if C: "C \<in> set (naryConstraints csp)" for C
  proof -
    from wfP C have ne: "vars C \<noteq> []" and sub: "set (vars C) \<subseteq> K" by (auto simp: wfProblem_def)
    from sub val have "\<forall>y \<in> set (vars C). \<exists>v. map_of R y = Some [v]" by blast
    with gac C ne show ?thesis by (intro gacOK_singleton) auto
  qed
  ultimately show ?thesis by (simp add: solved_def)
qed

text \<open>
  The invariant of \<open>backtrack\<close> (\<open>searchInv\<close>) and of its loop over the values
  (\<open>loopInv\<close>), for the declared names \<open>K\<close>: the assigned domains are singletons, the
  two mappings split \<open>K\<close>, and a state with nothing left to assign satisfies every
  constraint. \<open>answer\<close> is what the search then returns.
\<close>

definition singletons :: "'v domains \<Rightarrow> bool" where
  "singletons A \<longleftrightarrow> (\<forall>x \<in> set A. length (snd x) = 1)"

definition searchInv :: "'v problem \<Rightarrow> string set \<Rightarrow> 'v domains \<Rightarrow> 'v domains \<Rightarrow> bool" where
  "searchInv csp K A U \<longleftrightarrow>
     wfState A U \<and> fst ` set A \<union> fst ` set U = K \<and> singletons A \<and> (U = [] \<longrightarrow> solved csp A)"

definition loopInv :: "string set \<Rightarrow> string \<Rightarrow> 'v domains \<Rightarrow> 'v domains \<Rightarrow> bool" where
  "loopInv K k A U \<longleftrightarrow>
     wfState A U \<and> k \<notin> fst ` set A \<and> k \<notin> fst ` set U \<and>
     insert k (fst ` set A \<union> fst ` set U) = K \<and> singletons A"

definition answer :: "'v problem \<Rightarrow> string set \<Rightarrow> 'v domains \<Rightarrow> bool" where
  "answer csp K R \<longleftrightarrow>
     distinct (map fst R) \<and> fst ` set R = K \<and> singletons R \<and> solved csp R"

lemma entrywise_append:
  "entrywise c (U @ A) \<Longrightarrow> \<exists>cU cA. c = cU @ cA \<and> entrywise cU U \<and> entrywise cA A"
  unfolding entrywise_def by (auto simp: list_all2_append2)

lemma subseq_singleton:
  "subseq xs ys \<Longrightarrow> length ys = 1 \<Longrightarrow> xs \<noteq> [] \<Longrightarrow> xs = ys"
proof -
  assume s: "subseq xs ys" and l: "length ys = 1" and ne: "xs \<noteq> []"
  from s have "length xs \<le> length ys" by (rule list_emb_length)
  with l ne have "length xs = length ys" by (cases xs) auto
  with s show ?thesis by (rule subseq_same_length)
qed

lemma entrywise_singletons:
  "entrywise cA A \<Longrightarrow> singletons A \<Longrightarrow> \<forall>x \<in> set cA. snd x \<noteq> [] \<Longrightarrow> cA = A"
  unfolding entrywise_def singletons_def
proof (induction cA A rule: list_all2_induct)
  case Nil
  then show ?case by simp
next
  case (Cons x xs y ys)
  from Cons have "snd x = snd y" by (intro subseq_singleton) auto
  with Cons show ?case by (auto simp: prod_eq_iff)
qed


lemma delete_update_fresh:
  "k \<notin> fst ` set A \<Longrightarrow> AList.delete k (AList.update k v A) = A"
  by (induction A) (auto simp: AList.delete_eq)

lemma loopInv_from_searchInv:
  assumes "searchInv csp K A U" "k \<in> fst ` set U"
  shows "loopInv K k A (AList.delete k U)"
proof -
  from assms have wf: "wfState A U" and keys: "fst ` set A \<union> fst ` set U = K"
    and sing: "singletons A" by (simp_all add: searchInv_def)
  from wf assms(2) have fresh: "k \<notin> fst ` set A" by (auto simp: wfState_def)
  have dk: "fst ` set (AList.delete k U) = fst ` set U - {k}"
    by (auto simp: AList.delete_eq)
  have "wfState A (AList.delete k U)"
    using wf dk by (auto simp: wfState_def distinct_delete)
  with fresh dk keys sing assms(2) show ?thesis by (auto simp: loopInv_def)
qed

lemma searchInv_step:
  assumes wfP: "wfProblem csp K" and own: "\<forall>key \<in> K. \<not> inherited key"
    and inv: "loopInv K k A U"
    and ec: "enforceConsistency (AList.update k [v] A) U csp = Some (Inr (Result c))"
    and ne: "\<not> anyEmpty c"
  shows "searchInv csp K
           (filter (\<lambda>(key, d). truthyAt (AList.update k [v] A) key) c)
           (filter (\<lambda>(key, d). \<not> truthyAt (AList.update k [v] A) key) c)"
proof -
  define A1 where "A1 = AList.update k [v] A"
  from inv have wf: "wfState A U" and kA: "k \<notin> fst ` set A" and kU: "k \<notin> fst ` set U"
    and keys: "insert k (fst ` set A \<union> fst ` set U) = K" and sing: "singletons A"
    by (simp_all add: loopInv_def)
  have A1: "A1 = A @ [(k, [v])]" unfolding A1_def using kA by (rule update_fresh)
  have wf1: "wfState A1 U" using wf kA kU by (auto simp: wfState_def A1)
  have sing1: "singletons A1" using sing by (simp add: singletons_def A1)
  have pa: "partialAssignment A1 U = U @ A1" by (rule partialAssignment_wf[OF wf1])
  from entrywise_enforceConsistency[OF ec[folded A1_def]]
  have "entrywise c (U @ A1)" by (simp add: pa)
  then obtain cU cA where c: "c = cU @ cA" and eU: "entrywise cU U" and eA: "entrywise cA A1"
    using entrywise_append by blast
  from ne have nonempty: "\<forall>x \<in> set c. snd x \<noteq> []"
    by (auto simp: anyEmpty_def list_ex_iff)
  have cA: "cA = A1" using eA sing1 nonempty by (intro entrywise_singletons) (auto simp: c)
  have kU': "map fst cU = map fst U" using eU by (rule entrywise_keys)
  have kc: "fst ` set c \<subseteq> K"
  proof -
    have "fst ` set cU = fst ` set U" using kU' by (metis image_set)
    with keys show ?thesis by (auto simp: c cA A1)
  qed
  have t: "truthyAt A1 (fst x) \<longleftrightarrow> map_of A1 (fst x) \<noteq> None" if "x \<in> set c" for x
    using that kc own by (auto simp: truthyAt_def)
  have "filter (\<lambda>(key, d). truthyAt A1 key) c = filter (\<lambda>(key, d). map_of A1 key \<noteq> None) c"
    and "filter (\<lambda>(key, d). \<not> truthyAt A1 key) c = filter (\<lambda>(key, d). map_of A1 key = None) c"
    using t by (auto simp: case_prod_beta intro!: filter_cong)
  then have fA: "filter (\<lambda>(key, d). truthyAt A1 key) c = A1"
    and fU: "filter (\<lambda>(key, d). \<not> truthyAt A1 key) c = cU"
    using split_filters[OF wf1 kU' refl] by (simp_all add: c cA)
  have wf': "wfState A1 cU" using wf1 kU' by (simp add: wfState_def)
  have keys': "fst ` set A1 \<union> fst ` set cU = K"
  proof -
    have "fst ` set cU = fst ` set U" using kU' by (metis image_set)
    with keys show ?thesis by (auto simp: A1)
  qed
  have sol: "solved csp A1" if "cU = []"
  proof -
    from that kU' have U: "U = []" by simp
    then have pa': "partialAssignment A1 U = A1" using pa by simp
    have s: "single (partialAssignment A1 U)"
      unfolding pa' single_def using sing1
      by (auto simp: singletons_def dest!: map_of_SomeD)
    from enforceConsistency_single[OF s ec[folded A1_def]]
    have cc: "c = A1" and arcs: "\<forall>a \<in> set (constraints csp). arcOK a c"
      and gac: "\<forall>C \<in> set (naryConstraints csp). gacOK C c"
      unfolding pa' by blast+
    have sing: "\<forall>k d. map_of A1 k = Some d \<longrightarrow> length d = 1"
      using sing1 by (auto simp: singletons_def dest!: map_of_SomeD)
    from keys' that have "fst ` set A1 = K" by simp
    from solved_from_single[OF wfP this sing] arcs gac show ?thesis by (simp add: cc)
  qed
  show ?thesis
    unfolding A1_def[symmetric] fA fU searchInv_def
    using wf' keys' sing1 sol by simp
qed


lemma search_sound:
  "wfProblem csp K \<Longrightarrow> \<forall>key \<in> K. \<not> inherited key \<Longrightarrow> searchInv csp K A U \<Longrightarrow>
     backtrack str csp A U = Some (Inr (Result R)) \<Longrightarrow> answer csp K R"
  "wfProblem csp K \<Longrightarrow> \<forall>key \<in> K. \<not> inherited key \<Longrightarrow> loopInv K k A' U' \<Longrightarrow>
     tryValues str csp k A' U' vals = Some (Inr (Result R)) \<Longrightarrow> answer csp K R"
proof (induction str csp A U and str csp k A' U' vals arbitrary: R and R
    rule: backtrack_tryValues.induct)
  case (1 str csp assigned0 unassigned)
  note own = "1.prems"(2) and inv = "1.prems"(3) and res = "1.prems"(4)
  show ?case
  proof (cases "finished unassigned")
    case True
    with res have R: "R = assigned0" by (simp add: backtrack.simps)
    from True have "unassigned = []" by (simp add: finished_def)
    with inv show ?thesis
      by (simp add: R answer_def searchInv_def wfState_def)
  next
    case False
    with res obtain k vs where sel: "selectUnassignedVariable unassigned = Some k"
      and ov: "orderValues str k assigned0 unassigned csp = Some (Inr vs)"
      and tv: "tryValues str csp k assigned0 (AList.delete k unassigned) vs = Some (Inr (Result R))"
      by (auto simp: backtrack.simps split: option.splits sum.splits)
    from sel have "k \<in> fst ` set unassigned" by (rule selectUnassignedVariable_key)
    from loopInv_from_searchInv[OF inv this]
    have li: "loopInv K k assigned0 (AList.delete k unassigned)" .
    from "1.IH"[OF _ False sel _ refl "1.prems"(1) own _ tv] ov li show ?thesis by simp
  qed
next
  case (2 str csp nextKey assigned unassigned)
  then show ?case by simp
next
  case (3 str csp nextKey assigned unassigned val rest)
  note wfP = "3.prems"(1) and own = "3.prems"(2) and inv = "3.prems"(3) and res = "3.prems"(4)
  define A1 where "A1 = AList.update nextKey [val] assigned"
  from inv have fresh: "nextKey \<notin> fst ` set assigned" by (simp add: loopInv_def)
  have undo: "AList.delete nextKey A1 = assigned"
    unfolding A1_def by (rule delete_update_fresh[OF fresh])
  show ?case
  proof (cases "enforceConsistency A1 unassigned csp")
    case None
    with res show ?thesis by (simp add: A1_def[symmetric])
  next
    case (Some r)
    show ?thesis
    proof (cases r)
      case (Inl e)
      with Some res show ?thesis by (simp add: A1_def[symmetric])
    next
      case (Inr b)
      show ?thesis
      proof (cases b)
        case FAILURE
        with Some Inr res
        have "tryValues str csp nextKey (AList.delete nextKey A1) unassigned rest = Some (Inr (Result R))"
          by (simp add: A1_def[symmetric])
        from "3.IH"(1)[OF A1_def Some Inr FAILURE wfP own _ this] inv undo show ?thesis by simp
      next
        case (Result c)
        define newA where "newA = filter (\<lambda>(key, d). truthyAt A1 key) c"
        define newU where "newU = filter (\<lambda>(key, d). \<not> truthyAt A1 key) c"
        define T where "T = tryValues str csp nextKey (AList.delete nextKey A1) unassigned rest"
        have step: "tryValues str csp nextKey assigned unassigned (val # rest)
            = (if anyEmpty c then T
               else (case backtrack str csp newA newU of Some (Inr FAILURE) \<Rightarrow> T | r \<Rightarrow> r))"
          by (simp only: tryValues.simps Let_def A1_def[symmetric] Some Inr Result
              option.case sum.case outcome.case newA_def newU_def T_def)
        show ?thesis
        proof (cases "anyEmpty c")
          case True
          with step res have "T = Some (Inr (Result R))" by simp
          from "3.IH"(2)[OF A1_def Some Inr Result newA_def newU_def True wfP own _ this[unfolded T_def]]
            inv undo
          show ?thesis by simp
        next
          case False
          from Some Inr Result have ec: "enforceConsistency (AList.update nextKey [val] assigned) unassigned csp
              = Some (Inr (Result c))" by (simp add: A1_def)
          have si: "searchInv csp K newA newU"
            unfolding newA_def newU_def A1_def by (rule searchInv_step[OF wfP own inv ec False])
          show ?thesis
          proof (cases "backtrack str csp newA newU = Some (Inr FAILURE)")
            case bf: True
            with step False res have "T = Some (Inr (Result R))" by simp
            from "3.IH"(4)[OF A1_def Some Inr Result newA_def newU_def False bf refl refl wfP own _
                this[unfolded T_def]] inv undo
            show ?thesis by simp
          next
            case nf: False
            with step False res
            have "backtrack str csp newA newU = Some (Inr (Result R))"
              by (auto split: option.splits sum.splits outcome.splits)
            from "3.IH"(3)[OF A1_def Some Inr Result newA_def newU_def False wfP own si this]
            show ?thesis .
          qed
        qed
      qed
    qed
  qed
qed

lemma validateBinary_ok:
  "validateBinary varsSet cs = Inr u \<Longrightarrow>
   \<forall>c \<in> set cs. fst c \<in> varsSet \<and> fst (snd c) \<in> varsSet"
  by (induction cs) (auto simp: Let_def split: if_splits)

lemma validateParticipants_ok:
  "validateParticipants varsSet vs = Inr u \<Longrightarrow> set vs \<subseteq> varsSet"
  by (induction vs) (auto split: if_splits)

lemma validateNary_ok:
  "validateNary varsSet Cs = Inr u \<Longrightarrow>
   \<forall>C \<in> set Cs. vars C \<noteq> [] \<and> set (vars C) \<subseteq> varsSet"
  by (induction Cs) (auto split: if_splits sum.splits dest: validateParticipants_ok)

lemma validateProblem_ok:
  assumes "validateProblem csp = Inr u"
  shows "wfProblem csp (fst ` set (variables csp))"
proof (cases "validateDomains (variables csp)")
  case (Inl e)
  with assms show ?thesis by (simp add: validateProblem_def)
next
  case (Inr u0)
  show ?thesis
  proof (cases "validateBinary (fst ` set (variables csp)) (constraints csp)")
    case (Inl e)
    with Inr assms show ?thesis by (simp add: validateProblem_def)
  next
    case b: (Inr u1)
    with Inr assms have n: "validateNary (fst ` set (variables csp)) (naryConstraints csp) = Inr u"
      by (simp add: validateProblem_def)
    from validateBinary_ok[OF b] validateNary_ok[OF n]
    show ?thesis unfolding wfProblem_def by blast
  qed
qed

lemma keys_update: "fst ` set (AList.update k v al) = insert k (fst ` set al)"
  by (induction al) auto

lemma cloneVars_keys:
  "cloneVars vs out = Inr U \<Longrightarrow> distinct (map fst out) \<Longrightarrow>
   distinct (map fst U) \<and> fst ` set U = fst ` set out \<union> fst ` set vs"
proof (induction vs arbitrary: out)
  case Nil
  then show ?case by simp
next
  case (Cons x vs)
  obtain k d where x: "x = (k, d)" by (cases x)
  from Cons.prems(1) x obtain xs where d: "d = ArrayDomain xs"
    and c: "cloneVars vs (AList.update k xs out) = Inr U"
    by (cases d) simp_all
  have "distinct (map fst (AList.update k xs out))"
    using Cons.prems(2) by (rule distinct_update)
  from Cons.IH[OF c this] have "distinct (map fst U)"
    and "fst ` set U = fst ` set (AList.update k xs out) \<union> fst ` set vs" by simp_all
  then show ?case using x by (simp add: keys_update)
qed

lemma keys_foldl_assign:
  "fst ` set (foldl (\<lambda>out (k, d). assignProperty k (f d) out) init xs)
   = fst ` set init \<union> (fst ` set xs - {''__proto__''})"
proof (induction xs arbitrary: init)
  case Nil
  then show ?case by simp
next
  case (Cons x xs)
  obtain k d where x: "x = (k, d)" by (cases x)
  from Cons.IH[of "assignProperty k (f d) init"] x show ?case
    by (auto simp: keys_update assignProperty_def)
qed

lemma keys_normalizeProblem:
  "ordinaryKeys d \<Longrightarrow> fst ` set (variables (normalizeProblem d)) = fst ` set (rawVariables d)"
  using keys_foldl_assign[of "\<lambda>dm. ArrayDomain (elements dm)" "[]" "rawVariables d"]
  by (simp add: normalizeProblem_def normalized_domain ordinaryKeys_def)

text \<open>
  Every well-formed constraint of the caller's lists is a constraint of the normalised
  problem.
\<close>

lemma constraints_normalizeProblem:
  "rawConstraints d = Some cs \<Longrightarrow> Arc h t p \<in> set cs \<Longrightarrow>
   (h, t, p) \<in> set (constraints (normalizeProblem d))"
  by (force simp: normalizeProblem_def)

lemma naryConstraints_normalizeProblem:
  "rawNaryConstraints d = Some Cs \<Longrightarrow> Nary C \<in> set Cs \<Longrightarrow>
   C \<in> set (naryConstraints (normalizeProblem d))"
  by (force simp: normalizeProblem_def)

lemma map_of_unwrap:
  "map_of (unwrap R) k = map_option (\<lambda>v. case v of [] \<Rightarrow> None | x # xs \<Rightarrow> Some x) (map_of R k)"
  by (induction R) (auto simp: unwrap_def)

text \<open>
  The tuple that maps each participant \<open>vs\<close> of a constraint to the value the
  assignment \<open>a\<close> returns for it.
\<close>

definition tupleOf :: "(string \<times> 'v option) list \<Rightarrow> string list \<Rightarrow> 'v tuple" where
  "tupleOf a vs = (\<lambda>y. if y \<in> set vs then (case map_of a y of None \<Rightarrow> None | Some r \<Rightarrow> r) else None)"

lemma tupleOf_unwrap:
  assumes "singletons R"
  shows "tupleOf (unwrap R) vs = (\<lambda>y. if y \<in> set vs then map_option hd (map_of R y) else None)"
proof
  fix y
  show "tupleOf (unwrap R) vs y = (if y \<in> set vs then map_option hd (map_of R y) else None)"
  proof (cases "map_of R y")
    case None
    then show ?thesis by (simp add: tupleOf_def map_of_unwrap)
  next
    case (Some d)
    then have "(y, d) \<in> set R" by (rule map_of_SomeD)
    with assms have "length d = 1" by (auto simp: singletons_def)
    then obtain v where "d = [v]" by (cases d) auto
    with Some show ?thesis by (simp add: tupleOf_def map_of_unwrap)
  qed
qed

lemma solve_ResultD:
  assumes "solve str d = Some (Inr (Result a))"
  shows "\<exists>u index U0 R. validateProblem (normalizeProblem d) = Inr u \<and>
           buildNaryIndex (naryConstraints (normalizeProblem d)) = Inr index \<and>
           cloneVars (variables (normalizeProblem d)) [] = Inr U0 \<and>
           backtrack str ((normalizeProblem d)\<lparr>naryIndex := Some index\<rparr>) [] U0
             = Some (Inr (Result R)) \<and>
           a = unwrap R"
proof (cases "validateProblem (normalizeProblem d)")
  case (Inl e)
  with assms show ?thesis by (simp add: solve_def)
next
  case (Inr u)
  show ?thesis
  proof (cases "buildNaryIndex (naryConstraints (normalizeProblem d))")
    case (Inl e)
    with Inr assms show ?thesis by (simp add: solve_def Let_def)
  next
    case index: (Inr index)
    show ?thesis
    proof (cases "cloneVars (variables (normalizeProblem d)) []")
      case (Inl e)
      with Inr index assms show ?thesis by (simp add: solve_def Let_def)
    next
      case U0: (Inr U0)
      with Inr index assms show ?thesis
        by (simp add: solve_def Let_def split: option.splits sum.splits outcome.splits)
    qed
  qed
qed

text \<open>
  Soundness where the split test reads own properties only. If no declared variable
  has the name of a member of \<open>Object.prototype\<close> and \<open>solve\<close> returns an assignment,
  then the assignment has exactly the declared variables as keys, each once and each
  with a value; the predicate of every well-formed binary constraint of the caller's
  list is truthy on the values of its head and its tail; and the predicate of every
  well-formed n-ary constraint of the caller's list is truthy on the tuple of its
  participants' values.
\<close>

lemma solve_sound_ownNames:
  assumes res: "solve str d = Some (Inr (Result a))"
    and own: "\<forall>k \<in> fst ` set (rawVariables d). \<not> inherited k"
  shows "distinct (map fst a) \<and> fst ` set a = fst ` set (rawVariables d) \<and>
         (\<forall>k \<in> fst ` set (rawVariables d). \<exists>x. map_of a k = Some (Some x)) \<and>
         (\<forall>cs h t p. rawConstraints d = Some cs \<and> Arc h t p \<in> set cs \<longrightarrow>
            (\<exists>x y. map_of a h = Some (Some x) \<and> map_of a t = Some (Some y) \<and> p x y = Inr True)) \<and>
         (\<forall>Cs C. rawNaryConstraints d = Some Cs \<and> Nary C \<in> set Cs \<longrightarrow>
            predicate C (tupleOf a (vars C)) = Inr True)"
proof -
  define csp0 where "csp0 = normalizeProblem d"
  define K where "K = fst ` set (variables csp0)"
  from solve_ResultD[OF res] obtain u index U0 R where valid: "validateProblem csp0 = Inr u"
    and clone: "cloneVars (variables csp0) [] = Inr U0"
    and bt: "backtrack str (csp0\<lparr>naryIndex := Some index\<rparr>) [] U0 = Some (Inr (Result R))"
    and a: "a = unwrap R"
    unfolding csp0_def[symmetric] by blast
  define csp where "csp = csp0\<lparr>naryIndex := Some index\<rparr>"
  have "inherited ''__proto__''" by (simp add: inherited_def objectPrototype_def)
  with own have ordinary: "ordinaryKeys d" by (auto simp: ordinaryKeys_def)
  have Kraw: "K = fst ` set (rawVariables d)"
    unfolding K_def csp0_def by (rule keys_normalizeProblem[OF ordinary])
  have ownK: "\<forall>key \<in> K. \<not> inherited key" using own Kraw by simp
  have wfP0: "wfProblem csp0 K" unfolding K_def using valid by (rule validateProblem_ok)
  then have wfP: "wfProblem csp K" by (simp add: wfProblem_def csp_def)
  from cloneVars_keys[OF clone] have dU: "distinct (map fst U0)" and kU: "fst ` set U0 = K"
    by (simp_all add: K_def)
  have "solved csp []" if "U0 = []"
  proof -
    from that kU have K: "K = {}" by simp
    have "constraints csp = []"
    proof (cases "constraints csp")
      case (Cons c cs)
      then have "c \<in> set (constraints csp)" by simp
      with wfP have "fst c \<in> K" unfolding wfProblem_def by blast
      with K show ?thesis by simp
    qed simp
    moreover have "naryConstraints csp = []"
    proof (cases "naryConstraints csp")
      case (Cons C Cs)
      then have "C \<in> set (naryConstraints csp)" by simp
      with wfP have "vars C \<noteq> [] \<and> set (vars C) \<subseteq> K" unfolding wfProblem_def by blast
      with K show ?thesis by simp
    qed simp
    ultimately have "set (constraints csp) = {}" "set (naryConstraints csp) = {}" by simp_all
    then show ?thesis by (simp add: solved_def)
  qed
  with dU kU have "searchInv csp K [] U0"
    by (simp add: searchInv_def wfState_def singletons_def)
  from search_sound(1)[OF wfP ownK this bt[folded csp_def]] have ans: "answer csp K R" .
  then have dR: "distinct (map fst R)" and kR: "fst ` set R = K" and sR: "singletons R"
    and sol: "solved csp R" by (simp_all add: answer_def)
  have keys_a: "map fst a = map fst R" by (simp add: a unwrap_def comp_def case_prod_beta)
  have val: "\<exists>v. map_of R k = Some [v]" if "k \<in> K" for k
  proof -
    from that kR have "map_of R k \<noteq> None" by (simp add: map_of_eq_None_iff)
    then obtain dd where dd: "map_of R k = Some dd" by blast
    then have "(k, dd) \<in> set R" by (rule map_of_SomeD)
    with sR have "length dd = 1" by (auto simp: singletons_def)
    then obtain v where "dd = [v]" by (cases dd) auto
    with dd show ?thesis by blast
  qed
  have c1: "distinct (map fst a)" using dR keys_a by simp
  have c2: "fst ` set a = fst ` set (rawVariables d)"
    using kR keys_a Kraw by (metis image_set)
  have c3: "\<forall>k \<in> fst ` set (rawVariables d). \<exists>x. map_of a k = Some (Some x)"
  proof
    fix k assume "k \<in> fst ` set (rawVariables d)"
    with Kraw val obtain v where "map_of R k = Some [v]" by blast
    then show "\<exists>x. map_of a k = Some (Some x)" by (simp add: a map_of_unwrap)
  qed
  have c4: "\<exists>x y. map_of a h = Some (Some x) \<and> map_of a t = Some (Some y) \<and> p x y = Inr True"
    if "rawConstraints d = Some cs \<and> Arc h t p \<in> set cs" for cs h t p
  proof -
    from that have "(h, t, p) \<in> set (constraints (normalizeProblem d))"
      by (blast intro: constraints_normalizeProblem)
    then have "(h, t, p) \<in> set (constraints csp)" by (simp add: csp_def csp0_def)
    with sol obtain x y where "map_of R h = Some [x]" "map_of R t = Some [y]" "p x y = Inr True"
      unfolding solved_def by fastforce
    then show ?thesis by (auto simp: a map_of_unwrap)
  qed
  have c5: "predicate C (tupleOf a (vars C)) = Inr True"
    if "rawNaryConstraints d = Some Cs \<and> Nary C \<in> set Cs" for Cs C
  proof -
    from that have "C \<in> set (naryConstraints (normalizeProblem d))"
      by (blast intro: naryConstraints_normalizeProblem)
    then have "C \<in> set (naryConstraints csp)" by (simp add: csp_def csp0_def)
    with sol show ?thesis
      unfolding solved_def a tupleOf_unwrap[OF sR] by blast
  qed
  from c1 c2 c3 c4 c5 show ?thesis by blast
qed

text \<open>
  A problem with a binary and an n-ary constraint: \<open>a < b\<close>, and Scenario B's
  constraint on \<open>a\<close>, \<open>b\<close>, \<open>c\<close>.
\<close>

definition mixed :: "int description" where
  "mixed =
     \<lparr> rawVariables =
         [(''a'', ArrayDomain [1, 2, 3]), (''b'', ArrayDomain [1, 2, 3]), (''c'', ArrayDomain [1, 2, 3])],
       rawConstraints = Some [Arc ''a'' ''b'' (\<lambda>h t. Inr (h < t))],
       rawNaryConstraints = Some [Nary scenarioB] \<rparr>"

lemma solve_mixed:
  "solve decimal mixed = Some (Inr (Result [(''a'', Some 1), (''b'', Some 2), (''c'', Some 3)])) \<and>
   predicate scenarioB (tupleOf [(''a'', Some 1), (''b'', Some 2), (''c'', Some 3)] (vars scenarioB))
     = Inr True"
proof -
  have s: "solve decimal mixed = Some (Inr (Result [(''a'', Some 1), (''b'', Some 2), (''c'', Some 3)]))"
    by code_simp
  have o: "\<forall>k \<in> fst ` set (rawVariables mixed). \<not> inherited k"
    by (simp add: mixed_def inherited_def objectPrototype_def)
  have n: "rawNaryConstraints mixed = Some [Nary scenarioB] \<and> Nary scenarioB \<in> set [Nary scenarioB]"
    by (simp add: mixed_def)
  from solve_sound_ownNames[OF s o] n s show ?thesis by blast
qed

text \<open>
  A problem whose variables \<open>constructor\<close> and \<open>toString\<close> must differ, and a third
  variable \<open>x\<close> with a single value.
\<close>

definition differ :: "int pred2" where
  "differ h t = Inr (h \<noteq> t)"

definition prototypeNames :: "int description" where
  "prototypeNames =
     \<lparr> rawVariables =
         [(''constructor'', ArrayDomain [1, 2]), (''toString'', ArrayDomain [1, 2]),
          (''x'', ArrayDomain [1])],
       rawConstraints = Some [Arc ''constructor'' ''toString'' differ],
       rawNaryConstraints = None \<rparr>"

text \<open>
  Claim C1, at the problem \<open>prototypeNames\<close>. The problem passes validation and \<open>solve\<close>
  returns an assignment, which gives the value 1 to \<open>constructor\<close> and to \<open>toString\<close>;
  the predicate of the binary constraint between the two is false on the pair (1, 1).
  The search assigns \<open>x\<close> first; the split test \<open>if (assigned[key])\<close> then finds the
  inherited members of \<open>Object.prototype\<close> under the names of the other two variables
  and moves them, with their whole domains, to the assigned side, where no value is
  chosen for them any more.
\<close>

theorem solve_prototypeNames:
  "validateProblem (normalizeProblem prototypeNames) = Inr () \<and>
   solve decimal prototypeNames
     = Some (Inr (Result [(''constructor'', Some 1), (''toString'', Some 1), (''x'', Some 1)])) \<and>
   rawConstraints prototypeNames = Some [Arc ''constructor'' ''toString'' differ] \<and>
   differ 1 1 = Inr False"
proof -
  have "validateProblem (normalizeProblem prototypeNames) = Inr ()"
    by code_simp
  moreover have "solve decimal prototypeNames
     = Some (Inr (Result [(''constructor'', Some 1), (''toString'', Some 1), (''x'', Some 1)]))"
    by code_simp
  moreover have "rawConstraints prototypeNames = Some [Arc ''constructor'' ''toString'' differ]"
    by (simp add: prototypeNames_def)
  moreover have "differ 1 1 = Inr False"
    by (simp add: differ_def)
  ultimately show ?thesis by blast
qed

section \<open>Validation of domains\<close>

text \<open>A description whose only variable has a domain that is not an array.\<close>

definition nonArrayDomain :: "int description" where
  "nonArrayDomain =
     \<lparr> rawVariables = [(''x'', NotAnArray)], rawConstraints = None, rawNaryConstraints = None \<rparr>"

lemma update_arrays:
  "\<forall>x \<in> set init. \<exists>ys. snd x = ArrayDomain ys \<Longrightarrow>
   \<forall>y \<in> set (AList.update k (ArrayDomain v) init). \<exists>ys. snd y = ArrayDomain ys"
  by (induction init) auto

lemma normalized_arrays:
  "\<forall>x \<in> set init. \<exists>ys. snd x = ArrayDomain ys \<Longrightarrow>
   \<forall>x \<in> set (foldl (\<lambda>out (k, d). assignProperty k (ArrayDomain (f d)) out) init xs).
      \<exists>ys. snd x = ArrayDomain ys"
proof (induction xs arbitrary: init)
  case Nil
  then show ?case by simp
next
  case (Cons x xs)
  obtain k d where x: "x = (k, d)" by (cases x)
  have "\<forall>y \<in> set (assignProperty k (ArrayDomain (f d)) init). \<exists>ys. snd y = ArrayDomain ys"
    using Cons.prems update_arrays[of init k "f d"] by (simp add: assignProperty_def)
  from Cons.IH[OF this] x show ?case by simp
qed

lemma validateDomains_arrays_only:
  "\<forall>x \<in> set vs. \<exists>ys. snd x = ArrayDomain ys \<Longrightarrow> validateDomains vs = Inr ()"
  by (induction vs) (auto split: jsdomain.splits)

lemma validateBinary_error:
  "validateBinary varsSet cs = Inl e \<Longrightarrow> \<exists>v. e = UnknownVariable v"
  by (induction cs) (auto simp: Let_def split: if_splits)

lemma validateParticipants_error:
  "validateParticipants varsSet vs = Inl e \<Longrightarrow> \<exists>v. e = UnknownVariable v"
  by (induction vs) (auto split: if_splits)

lemma validateNary_error:
  "validateNary varsSet Cs = Inl e \<Longrightarrow> e = MissingVars \<or> (\<exists>v. e = UnknownVariable v)"
  by (induction Cs) (auto split: if_splits sum.splits dest: validateParticipants_error)

text \<open>
  \<open>validateProblem\<close> holds the test and the error for a domain that is not an array,
  but \<open>solve\<close> validates the normalised problem, in which \<open>normalizeProblem\<close> has put
  the empty array in the place of every such domain: for a description with ordinary
  keys the error cannot occur.
\<close>

lemma invalidDomain_unreachable:
  "ordinaryKeys d \<Longrightarrow> validateProblem (normalizeProblem d) \<noteq> Inl (InvalidDomain v)"
proof -
  have "\<forall>x \<in> set (variables (normalizeProblem d)). \<exists>ys. snd x = ArrayDomain ys"
    using normalized_arrays[of "[]" elements "rawVariables d"]
    by (simp add: normalizeProblem_def normalized_domain)
  then have "validateDomains (variables (normalizeProblem d)) = Inr ()"
    by (rule validateDomains_arrays_only)
  then show ?thesis
    using validateBinary_error validateNary_error
    by (fastforce simp: validateProblem_def Let_def split: sum.splits)
qed

text \<open>
  Claim C2, at a description in which the domain of \<open>x\<close> is not an array: the
  normalised problem has the empty array as the domain of \<open>x\<close>, validation passes, the
  search runs, and \<open>solve\<close> returns \<open>FAILURE\<close>. It does not fail with the error
  \<open>InvalidDomain\<close> that names \<open>x\<close>.
\<close>

theorem solve_nonArrayDomain:
  "variables (normalizeProblem nonArrayDomain) = [(''x'', ArrayDomain [])] \<and>
   validateProblem (normalizeProblem nonArrayDomain) = Inr () \<and>
   solve decimal nonArrayDomain = Some (Inr FAILURE)"
  by code_simp

section \<open>Idempotence of the consistency pass\<close>

text \<open>
  A successful run of \<open>runAC3\<close> ends in a mapping on which no constraint of the list
  has anything left to remove: a constraint leaves the queue only when it is
  consistent, and a removal from a tail puts every constraint with that head back.
\<close>

lemma filterE_all:
  "filterE f xs = Inr xs \<longleftrightarrow> (\<forall>x \<in> set xs. f x = Inr True)"
proof
  assume "filterE f xs = Inr xs"
  from filterE_Inr[OF this] have "filter (\<lambda>x. f x = Inr True) xs = xs" by simp
  then show "\<forall>x \<in> set xs. f x = Inr True" by (simp add: filter_id_conv)
next
  assume "\<forall>x \<in> set xs. f x = Inr True"
  then show "filterE f xs = Inr xs" by (induction xs) auto
qed

lemma arcOK_iff:
  "arcOK c doms \<longleftrightarrow>
     (\<forall>hv tv. map_of doms (fst c) = Some hv \<and> map_of doms (fst (snd c)) = Some tv \<longrightarrow>
        (\<forall>t \<in> set tv. someE (\<lambda>h. snd (snd c) h t) hv = Inr True))"
proof (cases "map_of doms (fst c)")
  case None
  then show ?thesis by (simp add: arcOK_def)
next
  case (Some hv)
  show ?thesis
  proof (cases "map_of doms (fst (snd c))")
    case None
    with Some show ?thesis by (simp add: arcOK_def)
  next
    case tv: (Some tv)
    let ?f = "\<lambda>t. someE (\<lambda>h. snd (snd c) h t) hv"
    have "removeInconsistentValues (fst c) (fst (snd c)) (snd (snd c)) doms = Inr (False, doms)
          \<longleftrightarrow> filterE ?f tv = Inr tv"
    proof
      assume r: "removeInconsistentValues (fst c) (fst (snd c)) (snd (snd c)) doms = Inr (False, doms)"
      then obtain valid where v: "filterE ?f tv = Inr valid" and l: "length valid = length tv"
        using Some tv by (auto simp: removeInconsistentValues_def split: sum.splits)
      from filterE_Inr[OF v] l have "valid = tv" by (simp add: filter_same_length)
      with v show "filterE ?f tv = Inr tv" by simp
    next
      assume "filterE ?f tv = Inr tv"
      then show "removeInconsistentValues (fst c) (fst (snd c)) (snd (snd c)) doms = Inr (False, doms)"
        using Some tv by (simp add: removeInconsistentValues_def update_triv)
    qed
    with Some tv show ?thesis by (simp add: arcOK_def filterE_all)
  qed
qed

lemma removeInconsistentValues_result:
  assumes "removeInconsistentValues h t p doms = Inr (removed, doms')"
    and "map_of doms h = Some hv" "map_of doms t = Some tv"
  shows "\<exists>valid. doms' = AList.update t valid doms \<and>
           valid = filter (\<lambda>x. someE (\<lambda>h. p h x) hv = Inr True) tv"
  using assms by (auto simp: removeInconsistentValues_def split: sum.splits dest!: filterE_Inr)

lemma arcOK_after_revision:
  assumes r: "removeInconsistentValues h t p doms = Inr (removed, doms')"
    and c: "c = (h, t, p) \<or> arcOK c doms" and ne: "fst c \<noteq> t"
  shows "arcOK c doms'"
proof (cases "map_of doms h")
  case None
  with r have "doms' = doms" by (simp add: removeInconsistentValues_def)
  with c None show ?thesis by (auto simp: arcOK_def)
next
  case (Some hv)
  show ?thesis
  proof (cases "map_of doms t")
    case None
    with r Some have "doms' = doms" by (simp add: removeInconsistentValues_def)
    with c None show ?thesis by (auto simp: arcOK_def)
  next
    case tv: (Some tv)
    from removeInconsistentValues_result[OF r Some tv] obtain valid where
      d: "doms' = AList.update t valid doms"
      and valid: "valid = filter (\<lambda>x. someE (\<lambda>h. p h x) hv = Inr True) tv" by blast
    have m: "map_of doms' k = (if k = t then Some valid else map_of doms k)" for k
      by (simp add: d update_conv')
    show ?thesis
      unfolding arcOK_iff
    proof (intro allI impI ballI)
      fix hv' tv' x
      assume a: "map_of doms' (fst c) = Some hv' \<and> map_of doms' (fst (snd c)) = Some tv'"
        and x: "x \<in> set tv'"
      from a ne have hv': "map_of doms (fst c) = Some hv'" by (simp add: m)
      show "someE (\<lambda>h. snd (snd c) h x) hv' = Inr True"
      proof (cases "c = (h, t, p)")
        case True
        with hv' Some have "hv' = hv" by simp
        moreover from a True have "tv' = valid" by (simp add: m)
        ultimately show ?thesis using x True valid by simp
      next
        case False
        with c have ok: "arcOK c doms" by simp
        show ?thesis
        proof (cases "fst (snd c) = t")
          case True
          with a have "tv' = valid" by (simp add: m)
          with x valid have "x \<in> set tv" by simp
          with ok hv' tv True show ?thesis unfolding arcOK_iff by simp
        next
          case nt: False
          with a have "map_of doms (fst (snd c)) = Some tv'" by (simp add: m)
          with ok hv' x show ?thesis unfolding arcOK_iff by blast
        qed
      qed
    qed
  qed
qed

lemma runAC3_while_arcOK:
  "runAC3_while cs doms queue = Some y \<Longrightarrow>
   (\<forall>c \<in> set cs. c \<in> set queue \<or> arcOK c doms) \<longrightarrow>
   (\<forall>doms'. y = Inr (True, doms') \<longrightarrow> (\<forall>c \<in> set cs. arcOK c doms'))"
proof (induct rule: runAC3_while_induct)
  case (step rec cs doms queue y)
  show ?case
  proof (intro impI allI)
    fix doms'
    assume inv: "\<forall>c \<in> set cs. c \<in> set queue \<or> arcOK c doms" and y: "y = Inr (True, doms')"
    show "\<forall>c \<in> set cs. arcOK c doms'"
    proof (cases queue)
      case Nil
      with step(2) y inv show ?thesis by simp
    next
      case (Cons c rest)
      show ?thesis
      proof (cases "map_of doms (fst c) = None \<or> map_of doms (fst (snd c)) = None")
        case True
        with step(2) Cons have "rec cs doms rest = Some y" by (auto simp: Let_def)
        moreover have "\<forall>c' \<in> set cs. c' \<in> set rest \<or> arcOK c' doms"
          using inv True Cons by (auto simp: arcOK_def)
        ultimately show ?thesis using step(1) y by blast
      next
        case False
        with step(2) Cons y obtain removed doms1 where
          r: "removeInconsistentValues (fst c) (fst (snd c)) (snd (snd c)) doms = Inr (removed, doms1)"
          by (auto simp: Let_def split: sum.splits)
        have after: "arcOK c' doms1"
          if "c' \<in> set cs" "c' \<notin> set rest" "fst c' \<noteq> fst (snd c)" for c'
        proof -
          from inv that(1,2) Cons have "c' = c \<or> arcOK c' doms" by auto
          then have "c' = (fst c, fst (snd c), snd (snd c)) \<or> arcOK c' doms" by auto
          from arcOK_after_revision[OF r this that(3)] show ?thesis .
        qed
        show ?thesis
        proof (cases removed)
          case True
          with step(2) Cons False r y
          have "rec cs doms1 (rest @ incomingConstraints cs (fst (snd c))) = Some y"
            by (auto simp: Let_def split: if_splits)
          moreover have "\<forall>c' \<in> set cs. c' \<in> set (rest @ incomingConstraints cs (fst (snd c)))
              \<or> arcOK c' doms1"
            using after by (auto simp: incomingConstraints_def)
          ultimately show ?thesis using step(1) y by blast
        next
          case nr: False
          with removeInconsistentValues_size[OF r] have same: "doms1 = doms" by simp
          with step(2) Cons False r nr have "rec cs doms rest = Some y" by (auto simp: Let_def)
          moreover have "\<forall>c' \<in> set cs. c' \<in> set rest \<or> arcOK c' doms"
            using inv Cons r nr same by (auto simp: arcOK_def)
          ultimately show ?thesis using step(1) y by blast
        qed
      qed
    qed
  qed
qed

lemma runAC3_while_fixpoint:
  "\<forall>c \<in> set queue. arcOK c doms \<Longrightarrow> runAC3_while cs doms queue = Some (Inr (True, doms))"
proof (induction queue)
  case Nil
  show ?case by (simp add: runAC3_while.simps)
next
  case (Cons c rest)
  then have ok: "arcOK c doms" and IH: "runAC3_while cs doms rest = Some (Inr (True, doms))"
    by simp_all
  show ?case
  proof (cases "map_of doms (fst c) = None \<or> map_of doms (fst (snd c)) = None")
    case True
    with IH show ?thesis by (subst runAC3_while.simps) (auto simp: Let_def)
  next
    case False
    with ok have "removeInconsistentValues (fst c) (fst (snd c)) (snd (snd c)) doms = Inr (False, doms)"
      unfolding arcOK_def by blast
    with False IH show ?thesis by (subst runAC3_while.simps) (auto simp: Let_def)
  qed
qed

lemma runAC3_idempotent:
  assumes "runAC3 doms cs = Some (Inr (True, r))"
  shows "runAC3 r cs = Some (Inr (True, r))"
proof -
  from assms have "runAC3_while cs doms cs = Some (Inr (True, r))" by (simp add: runAC3_def)
  from runAC3_while_arcOK[OF this] have "\<forall>c \<in> set cs. arcOK c r" by blast
  then show ?thesis unfolding runAC3_def by (rule runAC3_while_fixpoint)
qed

text \<open>
  The same for \<open>runGAC\<close>. The field \<open>ident\<close> stands for the identity of the constraint
  object (\<open>identified\<close>: two entries of the list with the same \<open>ident\<close> are the same
  object), and the index lists, for every participant, the constraints it takes part
  in (\<open>indexOK\<close>), as the one that \<open>buildNaryIndex\<close> makes does.
\<close>

definition identified :: "'v nary list \<Rightarrow> bool" where
  "identified cs \<longleftrightarrow> (\<forall>C \<in> set cs. \<forall>D \<in> set cs. ident C = ident D \<longrightarrow> C = D)"

definition indexOK :: "'v index \<Rightarrow> 'v nary list \<Rightarrow> bool" where
  "indexOK index cs \<longleftrightarrow>
     (\<forall>v related. map_of index v = Some related \<longrightarrow> set related \<subseteq> set cs) \<and>
     (\<forall>C \<in> set cs. \<forall>v \<in> set (vars C). \<exists>related. map_of index v = Some related \<and> C \<in> set related)"

lemma hasSupport_cong:
  assumes "\<forall>y \<in> set (vars C) - {x}. map_of doms' y = map_of doms y"
  shows "hasSupport x v C doms' = hasSupport x v C doms"
proof -
  have "(\<forall>y \<in> set (vars C) - {x}. \<exists>d. map_of doms' y = Some d \<and> choice y \<in> set d)
        \<longleftrightarrow> (\<forall>y \<in> set (vars C) - {x}. \<exists>d. map_of doms y = Some d \<and> choice y \<in> set d)" for choice
    using assms by simp
  then show ?thesis unfolding hasSupport_choice by simp
qed

lemma gacOK_frame:
  assumes "gacOK C doms" and "\<forall>y \<in> set (vars C). map_of doms' y = map_of doms y"
  shows "gacOK C doms'"
proof -
  have "hasSupport x v C doms' = hasSupport x v C doms" for x v
    using assms(2) by (intro hasSupport_cong) simp
  with assms show ?thesis by (simp add: gacOK_def)
qed

lemma pruneVars_frame:
  "pruneVars C vs doms ch = (ok, ch', doms') \<Longrightarrow> y \<notin> set vs \<Longrightarrow> map_of doms' y = map_of doms y"
proof (induction C vs doms ch rule: pruneVars.induct)
  case (1 C doms changedAny)
  then show ?case by simp
next
  case (2 C varName rest doms changedAny)
  then show ?case
    by (auto simp: Let_def update_conv' split: option.splits if_splits)
qed

lemma pruneVars_fixed:
  "pruneVars C vs doms ch = (True, False, doms') \<Longrightarrow>
   doms' = doms \<and>
   (\<forall>x \<in> set vs. \<forall>d. map_of doms x = Some d \<longrightarrow> (\<forall>v \<in> set d. hasSupport x v C doms))"
proof (induction vs)
  case Nil
  then show ?case by simp
next
  case (Cons x vs)
  show ?case
  proof (cases "map_of doms x")
    case None
    with Cons show ?thesis by simp
  next
    case (Some d)
    define newDom where "newDom = filter (\<lambda>val. hasSupport x val C doms) d"
    have eq: "length newDom = length d"
    proof (rule ccontr)
      assume ne: "length newDom \<noteq> length d"
      show False
      proof (cases "length newDom = 0")
        case True
        with Cons.prems Some ne show False by (simp add: newDom_def Let_def)
      next
        case False
        with Cons.prems Some ne
        have "pruneVars C vs (AList.update x newDom doms) True = (True, False, doms')"
          by (simp add: newDom_def Let_def)
        from pruneVars_changed_mono[OF this] show False by simp
      qed
    qed
    then have all: "\<forall>v \<in> set d. hasSupport x v C doms"
      unfolding newDom_def by (metis filter_same_length filter_id_conv)
    from Cons.prems Some eq have "pruneVars C vs doms ch = (True, False, doms')"
      by (simp add: newDom_def Let_def)
    from Cons.IH[OF this] all Some show ?thesis by auto
  qed
qed

lemma pruneVars_unchanged:
  "\<forall>x \<in> set vs. \<forall>d. map_of doms x = Some d \<longrightarrow> (\<forall>v \<in> set d. hasSupport x v C doms) \<Longrightarrow>
   pruneVars C vs doms ch = (True, ch, doms)"
proof (induction vs)
  case Nil
  then show ?case by simp
next
  case (Cons x vs)
  show ?case
  proof (cases "map_of doms x")
    case None
    with Cons show ?thesis by simp
  next
    case (Some d)
    with Cons.prems have "filter (\<lambda>val. hasSupport x val C doms) d = d"
      by (simp add: filter_id_conv)
    with Cons Some show ?thesis by (simp add: Let_def)
  qed
qed

lemma enqueue_one:
  assumes "set queue \<subseteq> set cs" "set related \<subseteq> set cs" "identified cs"
  shows "set (foldl (\<lambda>queue Rc. if list_ex (\<lambda>Q. ident Q = ident Rc) queue then queue
                                  else queue @ [Rc]) queue related)
         = set queue \<union> set related"
  using assms(1,2)
proof (induction related arbitrary: queue)
  case Nil
  then show ?case by simp
next
  case (Cons Rc related)
  show ?case
  proof (cases "list_ex (\<lambda>Q. ident Q = ident Rc) queue")
    case True
    then obtain Q where "Q \<in> set queue" "ident Q = ident Rc" by (auto simp: list_ex_iff)
    with Cons.prems assms(3) have "Q = Rc" unfolding identified_def by (meson list.set_intros(1) subsetD)
    with \<open>Q \<in> set queue\<close> have "Rc \<in> set queue" by simp
    with True Cons show ?thesis by auto
  next
    case False
    with Cons.IH[of "queue @ [Rc]"] Cons.prems show ?thesis by auto
  qed
qed

lemma enqueueRelated_set:
  assumes "set queue \<subseteq> set cs" "identified cs"
    and "\<forall>v related. map_of index v = Some related \<longrightarrow> set related \<subseteq> set cs"
  shows "set (enqueueRelated index vs queue)
         = set queue \<union> {C. \<exists>v \<in> set vs. \<exists>related. map_of index v = Some related \<and> C \<in> set related}"
  using assms(1)
proof (induction vs arbitrary: queue)
  case Nil
  then show ?case by (simp add: enqueueRelated_def)
next
  case (Cons v vs)
  define related where "related = (case map_of index v of None \<Rightarrow> [] | Some related \<Rightarrow> related)"
  define q1 where "q1 = foldl (\<lambda>queue Rc. if list_ex (\<lambda>Q. ident Q = ident Rc) queue then queue
                                  else queue @ [Rc]) queue related"
  have rel: "set related \<subseteq> set cs"
  proof (cases "map_of index v")
    case None
    then show ?thesis by (simp add: related_def)
  next
    case (Some l)
    with assms(3) have "set l \<subseteq> set cs" by blast
    with Some show ?thesis by (simp add: related_def)
  qed
  have q1: "set q1 = set queue \<union> set related"
    unfolding q1_def by (rule enqueue_one[OF Cons.prems rel assms(2)])
  then have "set q1 \<subseteq> set cs" using Cons.prems rel by simp
  from Cons.IH[OF this]
  have "set (enqueueRelated index vs q1)
         = set q1 \<union> {C. \<exists>v \<in> set vs. \<exists>related. map_of index v = Some related \<and> C \<in> set related}" .
  moreover have "enqueueRelated index (v # vs) queue = enqueueRelated index vs q1"
    by (simp add: enqueueRelated_def q1_def related_def)
  ultimately show ?case
    using q1 by (auto simp: related_def split: option.splits)
qed

lemma runGAC_while_gacOK:
  "runGAC_while index doms queue = Some y \<Longrightarrow>
   identified cs \<and> indexOK index cs \<and> set queue \<subseteq> set cs \<and>
   (\<forall>C \<in> set cs. C \<in> set queue \<or> gacOK C doms) \<longrightarrow>
   fst y \<longrightarrow> (\<forall>C \<in> set cs. gacOK C (snd y))"
proof (induct rule: runGAC_while_induct)
  case (step rec index doms queue y)
  show ?case
  proof (intro impI)
    assume a: "identified cs \<and> indexOK index cs \<and> set queue \<subseteq> set cs \<and>
        (\<forall>C \<in> set cs. C \<in> set queue \<or> gacOK C doms)" and y: "fst y"
    then have idc: "identified cs" and ix: "indexOK index cs" and sub: "set queue \<subseteq> set cs"
      and inv: "\<forall>C \<in> set cs. C \<in> set queue \<or> gacOK C doms" by simp_all
    show "\<forall>C \<in> set cs. gacOK C (snd y)"
    proof (cases queue)
      case Nil
      with step(2) inv show ?thesis by auto
    next
      case (Cons C0 rest)
      obtain ok changedAny doms1 where p: "pruneVars C0 (vars C0) doms False = (ok, changedAny, doms1)"
        by (cases "pruneVars C0 (vars C0) doms False") auto
      have ok: ok using step(2) Cons p y by (auto split: if_splits)
      show ?thesis
      proof (cases changedAny)
        case True
        define q where "q = enqueueRelated index (vars C0) rest"
        from step(2) Cons p ok True have r: "rec index doms1 q = Some y" by (simp add: q_def)
        have rest: "set rest \<subseteq> set cs" using sub Cons by simp
        have qs: "set q = set rest \<union>
            {C. \<exists>v \<in> set (vars C0). \<exists>related. map_of index v = Some related \<and> C \<in> set related}"
          unfolding q_def using rest idc ix by (intro enqueueRelated_set) (auto simp: indexOK_def)
        have qsub: "set q \<subseteq> set cs"
          using rest ix unfolding qs indexOK_def by blast
        have "C \<in> set q \<or> gacOK C doms1" if C: "C \<in> set cs" for C
        proof (cases "set (vars C) \<inter> set (vars C0) = {}")
          case False
          then obtain v where v: "v \<in> set (vars C)" "v \<in> set (vars C0)" by blast
          with ix C obtain related where "map_of index v = Some related" "C \<in> set related"
            unfolding indexOK_def by blast
          with v(2) show ?thesis unfolding qs by blast
        next
          case disj: True
          show ?thesis
          proof (cases "C \<in> set rest")
            case True
            then show ?thesis by (simp add: qs)
          next
            case False
            have "C \<noteq> C0"
            proof
              assume "C = C0"
              with disj have "vars C0 = []" by auto
              with p True show False by simp
            qed
            with inv C False Cons have g: "gacOK C doms" by auto
            have "\<forall>y \<in> set (vars C). map_of doms1 y = map_of doms y"
              using disj pruneVars_frame[OF p] by blast
            with g have "gacOK C doms1" by (rule gacOK_frame)
            then show ?thesis by simp
          qed
        qed
        with step(1)[OF r] idc ix qsub y show ?thesis by blast
      next
        case False
        from p ok False have "pruneVars C0 (vars C0) doms False = (True, False, doms1)" by simp
        from pruneVars_fixed[OF this]
        have same: "doms1 = doms" and g: "gacOK C0 doms" by (auto simp: gacOK_def)
        from step(2) Cons p ok False same have r: "rec index doms rest = Some y" by simp
        have "set rest \<subseteq> set cs" using sub Cons by simp
        moreover have "\<forall>C \<in> set cs. C \<in> set rest \<or> gacOK C doms"
          using inv g Cons by auto
        ultimately show ?thesis using step(1)[OF r] idc ix y by blast
      qed
    qed
  qed
qed

lemma runGAC_while_fixpoint:
  "\<forall>C \<in> set queue. gacOK C doms \<Longrightarrow> runGAC_while index doms queue = Some (True, doms)"
proof (induction queue)
  case Nil
  show ?case by (subst runGAC_while.simps) simp
next
  case (Cons C rest)
  then have "pruneVars C (vars C) doms False = (True, False, doms)"
    by (intro pruneVars_unchanged) (auto simp: gacOK_def)
  with Cons show ?case by (subst runGAC_while.simps) simp
qed

lemma indexParticipants_inv:
  "indexParticipants C vs index = Inr index' \<Longrightarrow>
   ((\<forall>v l. map_of index v = Some l \<longrightarrow> set l \<subseteq> S) \<and> C \<in> S \<longrightarrow>
      (\<forall>v l. map_of index' v = Some l \<longrightarrow> set l \<subseteq> S)) \<and>
   (\<forall>v l. map_of index v = Some l \<longrightarrow> (\<exists>l'. map_of index' v = Some l' \<and> set l \<subseteq> set l')) \<and>
   (\<forall>v \<in> set vs. \<exists>l'. map_of index' v = Some l' \<and> C \<in> set l')"
proof (induction vs arbitrary: index)
  case Nil
  then show ?case by simp
next
  case (Cons v vs)
  define l0 where "l0 = (case map_of index v of None \<Rightarrow> [] | Some l \<Rightarrow> l)"
  define index1 where "index1 = AList.update v (l0 @ [C]) index"
  from Cons.prems have rec: "indexParticipants C vs index1 = Inr index'"
    by (auto simp: index1_def l0_def split: option.splits if_splits)
  note IH = Cons.IH[OF rec]
  have m1: "map_of index1 w = (if w = v then Some (l0 @ [C]) else map_of index w)" for w
    by (simp add: index1_def update_conv')
  have sound: "\<forall>w l. map_of index' w = Some l \<longrightarrow> set l \<subseteq> S"
    if "\<forall>w l. map_of index w = Some l \<longrightarrow> set l \<subseteq> S" "C \<in> S"
  proof -
    have "set l0 \<subseteq> S"
    proof (cases "map_of index v")
      case None
      then show ?thesis by (simp add: l0_def)
    next
      case (Some l)
      with that(1) have "set l \<subseteq> S" by blast
      with Some show ?thesis by (simp add: l0_def)
    qed
    with that have "\<forall>w l. map_of index1 w = Some l \<longrightarrow> set l \<subseteq> S" by (auto simp: m1)
    with IH that(2) show ?thesis by blast
  qed
  have mono: "\<exists>l'. map_of index' w = Some l' \<and> set l \<subseteq> set l'" if "map_of index w = Some l" for w l
  proof -
    from that have "\<exists>l1. map_of index1 w = Some l1 \<and> set l \<subseteq> set l1"
      by (auto simp: m1 l0_def)
    then obtain l1 where "map_of index1 w = Some l1" "set l \<subseteq> set l1" by blast
    with IH obtain l' where "map_of index' w = Some l'" "set l1 \<subseteq> set l'" by blast
    with \<open>set l \<subseteq> set l1\<close> show ?thesis by blast
  qed
  have cov: "\<exists>l'. map_of index' w = Some l' \<and> C \<in> set l'" if "w \<in> set (v # vs)" for w
  proof (cases "w \<in> set vs")
    case True
    with IH show ?thesis by blast
  next
    case False
    with that have "w = v" by simp
    then have "map_of index1 w = Some (l0 @ [C])" by (simp add: m1)
    with IH obtain l' where "map_of index' w = Some l'" "set (l0 @ [C]) \<subseteq> set l'" by blast
    then show ?thesis by auto
  qed
  from sound mono cov show ?case by blast
qed

lemma indexConstraints_inv:
  "indexConstraints cs index = Inr index' \<Longrightarrow>
   ((\<forall>v l. map_of index v = Some l \<longrightarrow> set l \<subseteq> S) \<and> set cs \<subseteq> S \<longrightarrow>
      (\<forall>v l. map_of index' v = Some l \<longrightarrow> set l \<subseteq> S)) \<and>
   (\<forall>v l. map_of index v = Some l \<longrightarrow> (\<exists>l'. map_of index' v = Some l' \<and> set l \<subseteq> set l')) \<and>
   (\<forall>C \<in> set cs. \<forall>v \<in> set (vars C). \<exists>l'. map_of index' v = Some l' \<and> C \<in> set l')"
proof (induction cs arbitrary: index)
  case Nil
  then show ?case by simp
next
  case (Cons C cs)
  from Cons.prems obtain index1 where p: "indexParticipants C (vars C) index = Inr index1"
    and rec: "indexConstraints cs index1 = Inr index'"
    by (auto split: sum.splits)
  note P = indexParticipants_inv[OF p, of S]
  note IH = Cons.IH[OF rec]
  have sound: "\<forall>v l. map_of index' v = Some l \<longrightarrow> set l \<subseteq> S"
    if "\<forall>v l. map_of index v = Some l \<longrightarrow> set l \<subseteq> S" "set (C # cs) \<subseteq> S"
  proof -
    from P that have "\<forall>v l. map_of index1 v = Some l \<longrightarrow> set l \<subseteq> S" by simp
    with IH that(2) show ?thesis by simp
  qed
  have mono: "\<exists>l'. map_of index' w = Some l' \<and> set l \<subseteq> set l'" if "map_of index w = Some l" for w l
  proof -
    from P that obtain l1 where "map_of index1 w = Some l1" "set l \<subseteq> set l1" by blast
    with IH obtain l' where "map_of index' w = Some l'" "set l1 \<subseteq> set l'" by blast
    with \<open>set l \<subseteq> set l1\<close> show ?thesis by blast
  qed
  have cov: "\<exists>l'. map_of index' v = Some l' \<and> D \<in> set l'"
    if "D \<in> set (C # cs)" "v \<in> set (vars D)" for D v
  proof (cases "D \<in> set cs")
    case True
    with IH that(2) show ?thesis by blast
  next
    case False
    with that have D: "D = C" by simp
    with P that(2) obtain l1 where "map_of index1 v = Some l1" "C \<in> set l1" by blast
    with IH obtain l' where "map_of index' v = Some l'" "set l1 \<subseteq> set l'" by blast
    with \<open>C \<in> set l1\<close> D show ?thesis by blast
  qed
  from sound mono cov show ?case by blast
qed

lemma buildNaryIndex_indexOK:
  "buildNaryIndex cs = Inr index \<Longrightarrow> indexOK index cs"
  using indexConstraints_inv[of cs "[]" index "set cs"]
  by (simp add: buildNaryIndex_def indexOK_def)

text \<open>
  \<open>indexed csp\<close>: the property \<open>_naryIndex\<close> is absent, or it is the index that \<open>solve\<close>
  stores there.
\<close>

definition indexed :: "'v problem \<Rightarrow> bool" where
  "indexed csp \<longleftrightarrow>
     (case naryIndex csp of
        None \<Rightarrow> True
      | Some index \<Rightarrow> buildNaryIndex (naryConstraints csp) = Inr index)"

lemma runGAC_idempotent:
  assumes idn: "identified (naryConstraints csp)" and ix: "indexed csp"
    and g: "runGAC doms csp = Some (Inr (True, r))"
  shows "runGAC r csp = Some (Inr (True, r))"
proof -
  from g obtain index where
    i: "(case naryIndex csp of
           Some index \<Rightarrow> Inr index
         | None \<Rightarrow> buildNaryIndex (naryConstraints csp)) = Inr index"
    and w: "runGAC_while index doms (naryConstraints csp) = Some (True, r)"
    by (auto simp: runGAC_def split: sum.splits option.splits)
  from i ix have "buildNaryIndex (naryConstraints csp) = Inr index"
    by (auto simp: indexed_def split: option.splits)
  then have ok: "indexOK index (naryConstraints csp)" by (rule buildNaryIndex_indexOK)
  from runGAC_while_gacOK[OF w, of "naryConstraints csp"] idn ok
  have "\<forall>C \<in> set (naryConstraints csp). gacOK C r" by simp
  then have "runGAC_while index r (naryConstraints csp) = Some (True, r)"
    by (rule runGAC_while_fixpoint)
  with i show ?thesis by (simp add: runGAC_def)
qed

text \<open>
  A problem with a binary constraint \<open>x = y\<close> and the n-ary constraint \<open>x = 1\<close>.
\<close>

definition isOne :: "int nary" where
  "isOne = \<lparr> ident = 0, vars = [''x''], predicate = (\<lambda>t. Inr (t ''x'' = Some 1)) \<rparr>"

definition twoPhases :: "int problem" where
  "twoPhases =
     \<lparr> variables = [(''x'', ArrayDomain [1, 2]), (''y'', ArrayDomain [1, 2])],
       constraints = [(''x'', ''y'', \<lambda>h t. Inr (h = t))],
       naryConstraints = [isOne],
       naryIndex = Some [(''x'', [isOne])] \<rparr>"

text \<open>
  Claim C5 does not hold for a problem with constraints of both kinds: the pass runs
  \<open>runAC3\<close> and then \<open>runGAC\<close>, once each. On \<open>twoPhases\<close> the first pass leaves \<open>y\<close>
  untouched and then removes 2 from \<open>x\<close>; the second pass, applied to the result,
  removes 2 from \<open>y\<close>.
\<close>

theorem second_pass_prunes:
  "enforceConsistency [] [(''x'', [1, 2]), (''y'', [1, 2])] twoPhases
     = Some (Inr (Result [(''x'', [1]), (''y'', [1, 2])])) \<and>
   enforceConsistency [] [(''x'', [1]), (''y'', [1, 2])] twoPhases
     = Some (Inr (Result [(''x'', [1]), (''y'', [1])]))"
  by code_simp

text \<open>A problem with Scenario B's constraint only.\<close>

definition sumSix :: "int problem" where
  "sumSix =
     \<lparr> variables = [(''a'', ArrayDomain [1, 2, 3]), (''b'', ArrayDomain [1, 2, 3]),
                    (''c'', ArrayDomain [1, 2, 3])],
       constraints = [],
       naryConstraints = [scenarioB],
       naryIndex = None \<rparr>"

text \<open>
  Claim C5, amended. For a problem that has no binary constraint or no n-ary
  constraint, a successful consistency pass is idempotent: applied to any pair of
  mappings whose union is the pruned mapping \<open>r\<close> that the first pass returned, the
  pass succeeds again and returns exactly \<open>r\<close>.
\<close>

theorem enforceConsistency_idempotent:
  assumes one: "constraints csp = [] \<or> naryConstraints csp = []"
    and idn: "identified (naryConstraints csp)" and ix: "indexed csp"
    and first: "enforceConsistency assigned unassigned csp = Some (Inr (Result r))"
    and again: "partialAssignment assigned' unassigned' = r"
  shows "enforceConsistency assigned' unassigned' csp = Some (Inr (Result r))"
proof (cases "naryConstraints csp = []")
  case True
  show ?thesis
  proof (cases "constraints csp = []")
    case nc: True
    with True first again show ?thesis by (simp add: enforceConsistency_def)
  next
    case False
    with True first have "runAC3 (partialAssignment assigned unassigned) (constraints csp)
        = Some (Inr (True, r))"
      by (auto simp: enforceConsistency_def Let_def split: option.splits sum.splits if_splits)
    then have "runAC3 r (constraints csp) = Some (Inr (True, r))" by (rule runAC3_idempotent)
    with True False again show ?thesis by (simp add: enforceConsistency_def)
  qed
next
  case False
  with one have nc: "constraints csp = []" by simp
  with False first have "runGAC (partialAssignment assigned unassigned) csp = Some (Inr (True, r))"
    by (auto simp: enforceConsistency_def Let_def split: option.splits sum.splits if_splits)
  from runGAC_idempotent[OF idn ix this] have "runGAC r csp = Some (Inr (True, r))" .
  with nc False again show ?thesis by (simp add: enforceConsistency_def)
qed

theorem enforceConsistency_idempotent_witness:
  "enforceConsistency [(''x'', [2])] [(''y'', [1, 2, 3])] scenarioA
     = Some (Inr (Result [(''y'', [3]), (''x'', [2])])) \<and>
   enforceConsistency [] [(''y'', [3]), (''x'', [2])] scenarioA
     = Some (Inr (Result [(''y'', [3]), (''x'', [2])])) \<and>
   enforceConsistency [(''a'', [1])] [(''b'', [1, 2, 3]), (''c'', [1, 2, 3])] sumSix
     = Some (Inr (Result [(''b'', [2, 3]), (''c'', [2, 3]), (''a'', [1])])) \<and>
   enforceConsistency [] [(''b'', [2, 3]), (''c'', [2, 3]), (''a'', [1])] sumSix
     = Some (Inr (Result [(''b'', [2, 3]), (''c'', [2, 3]), (''a'', [1])]))"
proof -
  have a1: "enforceConsistency [(''x'', [2])] [(''y'', [1, 2, 3])] scenarioA
     = Some (Inr (Result [(''y'', [3]), (''x'', [2])]))"
    by code_simp
  have a2: "constraints scenarioA = [] \<or> naryConstraints scenarioA = []"
    "identified (naryConstraints scenarioA)" "indexed scenarioA"
    by (simp_all add: scenarioA_def identified_def indexed_def buildNaryIndex_def)
  have a3: "partialAssignment [] [(''y'', [3 :: int]), (''x'', [2])] = [(''y'', [3]), (''x'', [2])]"
    by (simp add: partialAssignment_def)
  have b1: "enforceConsistency [(''a'', [1])] [(''b'', [1, 2, 3]), (''c'', [1, 2, 3])] sumSix
     = Some (Inr (Result [(''b'', [2, 3]), (''c'', [2, 3]), (''a'', [1])]))"
    by code_simp
  have b2: "constraints sumSix = [] \<or> naryConstraints sumSix = []"
    "identified (naryConstraints sumSix)" "indexed sumSix"
    by (simp_all add: sumSix_def identified_def indexed_def)
  have b3: "partialAssignment [] [(''b'', [2, 3 :: int]), (''c'', [2, 3]), (''a'', [1])]
      = [(''b'', [2, 3]), (''c'', [2, 3]), (''a'', [1])]"
    by (simp add: partialAssignment_def)
  from a1 b1 enforceConsistency_idempotent[OF a2 a1 a3] enforceConsistency_idempotent[OF b2 b1 b3]
  show ?thesis by simp
qed

section \<open>The older solver (src/unnamed/part_000)\<close>

text \<open>
  The repository keeps an older solver beside \<open>src/csp.js\<close>. Its functions carry the
  suffix \<open>0\<close> here where \<open>src/csp.js\<close> has a function of the same name;
  \<open>partialAssignment\<close>, the filter of \<open>incomingConstraints\<close> and the re-enqueueing loop
  (\<open>enqueueRelated\<close>) are the same code in both. The older solver validates nothing and
  guards nothing: a property that the mapping does not have reads as \<open>undefined\<close>, and
  calling a method of it or reading its length throws a \<open>TypeError\<close>. A name that a
  constraint mentions and that is not an own property of the mapping is taken not to
  be a member of \<open>Object.prototype\<close>.
\<close>

text \<open>
  \<open>removeInconsistentValues\<close>: \<open>tv.filter\<close> throws when the tail has no domain, and
  \<open>hv.some\<close> throws, at the first tail value, when the head has none.
\<close>

definition removeInconsistentValues0 ::
  "string \<Rightarrow> string \<Rightarrow> 'v pred2 \<Rightarrow> 'v domains \<Rightarrow> error + bool \<times> 'v domains" where
  "removeInconsistentValues0 head tail constraint doms =
     (case map_of doms tail of
        None \<Rightarrow> Inl TypeError
      | Some tv \<Rightarrow>
          (case filterE (\<lambda>t. case map_of doms head of
                               None \<Rightarrow> Inl TypeError
                             | Some hv \<Rightarrow> someE (\<lambda>h. constraint h t) hv) tv of
             Inl e \<Rightarrow> Inl e
           | Inr validTailValues \<Rightarrow>
               Inr (length tv \<noteq> length validTailValues,
                    AList.update tail validTailValues doms)))"

text \<open>
  The loop over the queue of binary constraints in \<open>enforceConsistency\<close>. It has no
  exit but the empty queue.
\<close>

partial_function (option) arcLoop0 ::
  "'v arc list \<Rightarrow> 'v domains \<Rightarrow> 'v arc list \<Rightarrow> (error + 'v domains) option" where
  "arcLoop0 cs doms queue =
     (case queue of
        [] \<Rightarrow> Some (Inr doms)
      | c # rest \<Rightarrow>
          (let head = fst c; tail = fst (snd c); constraint = snd (snd c) in
           case removeInconsistentValues0 head tail constraint doms of
             Inl e \<Rightarrow> Some (Inl e)
           | Inr (removed, doms') \<Rightarrow>
               if removed then arcLoop0 cs doms' (rest @ incomingConstraints cs tail)
               else arcLoop0 cs doms' rest))"

declare arcLoop0.simps [code]

text \<open>
  \<open>hasSupport\<close>: the search \<open>dfs\<close> copies \<open>partial\<close> into the tuple, adds the focus value
  and returns what the predicate returns; an error of the predicate is not caught. The
  comparator of the sort reads the length of each domain, which throws for a
  participant without a domain as soon as there are two participants to compare.
\<close>

fun dfs0 ::
  "('v tuple \<Rightarrow> error + bool) \<Rightarrow> string \<Rightarrow> 'v \<Rightarrow> 'v domains \<Rightarrow> string list \<Rightarrow> 'v tuple \<Rightarrow>
   error + bool" where
  "dfs0 pred focusVar focusVal doms [] partial = pred (partial(focusVar \<mapsto> focusVal))"
| "dfs0 pred focusVar focusVal doms (v # rest) partial =
     (case map_of doms v of
        None \<Rightarrow> Inl TypeError
      | Some d \<Rightarrow> someE (\<lambda>x. dfs0 pred focusVar focusVal doms rest (partial(v \<mapsto> x))) d)"

definition hasSupport0 :: "string \<Rightarrow> 'v \<Rightarrow> 'v nary \<Rightarrow> 'v domains \<Rightarrow> error + bool" where
  "hasSupport0 focusVar focusVal C doms =
     (let others = filter (\<lambda>v. v \<noteq> focusVar) (vars C) in
      if 2 \<le> length others \<and> list_ex (\<lambda>v. map_of doms v = None) others
      then Inl TypeError
      else dfs0 (predicate C) focusVar focusVal doms
             (sort_key (\<lambda>v. length (domainOf doms v)) others) Map.empty)"

text \<open>
  \<open>enforceGAC\<close>: the loop over the participants of one constraint, which never stops
  early, and the loop over the queue. The index is \<open>csp._naryIndex\<close>, which is
  \<open>undefined\<close> unless \<open>solve\<close> has set it.
\<close>

fun pruneVars0 ::
  "'v nary \<Rightarrow> string list \<Rightarrow> 'v domains \<Rightarrow> bool \<Rightarrow> error + bool \<times> 'v domains" where
  "pruneVars0 C [] doms changedAny = Inr (changedAny, doms)"
| "pruneVars0 C (varName # rest) doms changedAny =
     (case map_of doms varName of
        None \<Rightarrow> pruneVars0 C rest doms changedAny
      | Some d \<Rightarrow>
          (case filterE (\<lambda>val. hasSupport0 varName val C doms) d of
             Inl e \<Rightarrow> Inl e
           | Inr newDom \<Rightarrow>
               if length newDom \<noteq> length d
               then pruneVars0 C rest (AList.update varName newDom doms) True
               else pruneVars0 C rest doms changedAny))"

partial_function (option) enforceGAC_while ::
  "'v index option \<Rightarrow> 'v domains \<Rightarrow> 'v nary list \<Rightarrow> (error + 'v domains) option" where
  "enforceGAC_while index doms queue =
     (case queue of
        [] \<Rightarrow> Some (Inr doms)
      | C # rest \<Rightarrow>
          (case pruneVars0 C (vars C) doms False of
             Inl e \<Rightarrow> Some (Inl e)
           | Inr (changedAny, doms') \<Rightarrow>
               if changedAny then
                 (case index of
                    None \<Rightarrow> Some (Inl TypeError)
                  | Some related \<Rightarrow>
                      enforceGAC_while index doms' (enqueueRelated related (vars C) rest))
               else enforceGAC_while index doms' rest))"

declare enforceGAC_while.simps [code]

definition enforceGAC :: "'v domains \<Rightarrow> 'v problem \<Rightarrow> (error + 'v domains) option" where
  "enforceGAC doms csp = enforceGAC_while (naryIndex csp) doms (naryConstraints csp)"

text \<open>\<open>enforceConsistency\<close> returns the mapping; it has no other result.\<close>

definition enforceConsistency0 ::
  "'v domains \<Rightarrow> 'v domains \<Rightarrow> 'v problem \<Rightarrow> (error + 'v domains) option" where
  "enforceConsistency0 assigned unassigned csp =
     (let doms = partialAssignment assigned unassigned in
      case arcLoop0 (constraints csp) doms (constraints csp) of
        None \<Rightarrow> None
      | Some (Inl e) \<Rightarrow> Some (Inl e)
      | Some (Inr doms1) \<Rightarrow>
          if length (naryConstraints csp) \<noteq> 0 then enforceGAC doms1 csp
          else Some (Inr doms1))"

subsection \<open>An emptied domain in the arc-consistency phase\<close>

text \<open>
  A problem in which \<open>y\<close> has no value equal to the value of \<open>x\<close>, and in which a
  second constraint links \<open>y\<close> to \<open>z\<close>.
\<close>

definition sameValue :: "int pred2" where
  "sameValue h t = Inr (h = t)"

definition smaller :: "int pred2" where
  "smaller h t = Inr (h < t)"

definition emptying :: "int problem" where
  "emptying =
     \<lparr> variables = [(''x'', ArrayDomain [1]), (''y'', ArrayDomain [2]), (''z'', ArrayDomain [3])],
       constraints = [(''x'', ''y'', sameValue), (''y'', ''z'', smaller)],
       naryConstraints = [],
       naryIndex = Some [] \<rparr>"

text \<open>
  Claim C6 does not hold for the older solver. On \<open>emptying\<close> the first constraint
  empties the domain of \<open>y\<close>; the older \<open>enforceConsistency\<close> goes on, processes the
  second constraint, which empties the domain of \<open>z\<close> too, and returns the mapping,
  not a failure result. (Its caller finds the empty domains with \<open>anyEmpty\<close>.) The
  pass of \<open>src/csp.js\<close> returns \<open>FAILURE\<close> on the same input.
\<close>

theorem older_pass_goes_on:
  "enforceConsistency0 [] [(''x'', [1]), (''y'', [2]), (''z'', [3])] emptying
     = Some (Inr [(''x'', [1]), (''y'', []), (''z'', [])]) \<and>
   enforceConsistency [] [(''x'', [1]), (''y'', [2]), (''z'', [3])] emptying
     = Some (Inr FAILURE)"
  by code_simp

lemma removeInconsistentValues_True:
  assumes "removeInconsistentValues h t p doms = Inr (True, doms')"
  shows "\<exists>hv tv valid. map_of doms h = Some hv \<and> map_of doms t = Some tv \<and>
           doms' = AList.update t valid doms \<and> length valid < length tv \<and>
           map_of doms' t = Some valid"
proof -
  from assms obtain hv tv valid where hv: "map_of doms h = Some hv" and tv: "map_of doms t = Some tv"
    and v: "filterE (\<lambda>t. someE (\<lambda>h. p h t) hv) tv = Inr valid"
    and ne: "length valid \<noteq> length tv" and d: "doms' = AList.update t valid doms"
    by (auto simp: removeInconsistentValues_def split: option.splits sum.splits)
  from filterE_Inr[OF v] have "length valid \<le> length tv" by simp
  with ne have "length valid < length tv" by simp
  with hv tv d show ?thesis by (simp add: update_conv')
qed

lemma runAC3_while_emptied:
  "runAC3_while cs doms queue = Some y \<Longrightarrow>
   (\<forall>ok doms'. y = Inr (ok, doms') \<longrightarrow>
      (ok \<longleftrightarrow> (\<forall>k. map_of doms' k = Some [] \<longrightarrow> map_of doms k = Some [])))"
proof (induct rule: runAC3_while_induct)
  case (step rec cs doms queue y)
  show ?case
  proof (intro allI impI)
    fix ok doms'
    assume y: "y = Inr (ok, doms')"
    show "ok \<longleftrightarrow> (\<forall>k. map_of doms' k = Some [] \<longrightarrow> map_of doms k = Some [])"
    proof (cases queue)
      case Nil
      with step(2) y show ?thesis by auto
    next
      case (Cons c rest)
      show ?thesis
      proof (cases "map_of doms (fst c) = None \<or> map_of doms (fst (snd c)) = None")
        case True
        with step(2) Cons have "rec cs doms rest = Some y" by (auto simp: Let_def)
        from step(1)[OF this] y show ?thesis by blast
      next
        case False
        with step(2) Cons y obtain removed doms1 where
          r: "removeInconsistentValues (fst c) (fst (snd c)) (snd (snd c)) doms = Inr (removed, doms1)"
          by (auto simp: Let_def split: sum.splits)
        show ?thesis
        proof (cases removed)
          case nr: False
          with removeInconsistentValues_size[OF r] have same: "doms1 = doms" by simp
          with step(2) Cons False r nr have "rec cs doms rest = Some y" by (auto simp: Let_def)
          from step(1)[OF this] y show ?thesis by blast
        next
          case True
          from r True have "removeInconsistentValues (fst c) (fst (snd c)) (snd (snd c)) doms
              = Inr (True, doms1)" by simp
          from removeInconsistentValues_True[OF this] obtain tv valid where
            tv: "map_of doms (fst (snd c)) = Some tv"
            and d1: "doms1 = AList.update (fst (snd c)) valid doms"
            and lt: "length valid < length tv" and m1: "map_of doms1 (fst (snd c)) = Some valid"
            by blast
          have m: "map_of doms1 k = (if k = fst (snd c) then Some valid else map_of doms k)" for k
            by (simp add: d1 update_conv')
          from lt have tvne: "tv \<noteq> []" by auto
          show ?thesis
          proof (cases "valid = []")
            case e: True
            with step(2) Cons False r True m1 have "y = Inr (False, doms1)"
              by (auto simp: Let_def)
            with y have "\<not> ok" "doms' = doms1" by simp_all
            with m1 e tv tvne show ?thesis by auto
          next
            case ne: False
            with step(2) Cons False r True m1
            have "rec cs doms1 (rest @ incomingConstraints cs (fst (snd c))) = Some y"
              by (auto simp: Let_def)
            from step(1)[OF this] y
            have "ok \<longleftrightarrow> (\<forall>k. map_of doms' k = Some [] \<longrightarrow> map_of doms1 k = Some [])" by blast
            also have "\<dots> \<longleftrightarrow> (\<forall>k. map_of doms' k = Some [] \<longrightarrow> map_of doms k = Some [])"
              using ne tv tvne by (auto simp: m)
            finally show ?thesis .
          qed
        qed
      qed
    qed
  qed
qed

lemma runAC3_step_empty:
  assumes "removeInconsistentValues h t p doms = Inr (True, doms')" and "map_of doms' t = Some []"
  shows "runAC3_while cs doms ((h, t, p) # rest) = Some (Inr (False, doms'))"
proof -
  from removeInconsistentValues_True[OF assms(1)]
  obtain hv tv where "map_of doms h = Some hv" "map_of doms t = Some tv" by blast
  with assms show ?thesis by (subst runAC3_while.simps) (simp add: Let_def)
qed

lemma runAC3_step_requeue:
  assumes "removeInconsistentValues h t p doms = Inr (True, doms')" and "map_of doms' t \<noteq> Some []"
  shows "runAC3_while cs doms ((h, t, p) # rest)
         = runAC3_while cs doms' (rest @ filter (\<lambda>c. fst c = t) cs)"
proof -
  from removeInconsistentValues_True[OF assms(1)]
  obtain hv tv valid where "map_of doms h = Some hv" "map_of doms t = Some tv"
    "map_of doms' t = Some valid" by blast
  with assms show ?thesis
    by (subst runAC3_while.simps) (simp add: Let_def incomingConstraints_def)
qed

lemma enforceConsistency_fails:
  assumes "runAC3 (partialAssignment assigned unassigned) (constraints csp) = Some (Inr (False, d))"
  shows "enforceConsistency assigned unassigned csp = Some (Inr FAILURE)"
proof (cases "constraints csp = []")
  case True
  with assms show ?thesis by (simp add: runAC3_def runAC3_while.simps)
next
  case False
  with assms show ?thesis by (simp add: enforceConsistency_def)
qed

lemma arcLoop0_step:
  assumes "removeInconsistentValues0 h t p doms = Inr (True, doms')"
  shows "arcLoop0 cs doms ((h, t, p) # rest) = arcLoop0 cs doms' (rest @ filter (\<lambda>c. fst c = t) cs)"
  using assms by (subst arcLoop0.simps) (simp add: Let_def incomingConstraints_def)

text \<open>
  Claim C6, amended. In \<open>src/csp.js\<close>: when the removal of unsupported values from the
  tail of a constraint leaves the tail's domain empty, \<open>runAC3\<close> returns \<open>false\<close> at
  once, in the state right after the removal and whatever is left in the queue, and
  \<open>enforceConsistency\<close> then returns \<open>FAILURE\<close>; when values were removed and the domain
  is not empty, the loop continues with every constraint of the problem whose head is
  that tail appended to the queue; and the phase succeeds exactly when it has emptied
  no domain. In the older solver there is no failure: after every removal, also one
  that empties the domain, the loop continues with the constraints whose head is that
  tail appended to the queue.
\<close>

theorem arc_consistency_on_empty_domain:
  "(removeInconsistentValues h t p doms = Inr (True, doms') \<and> map_of doms' t = Some [] \<longrightarrow>
      runAC3_while cs doms ((h, t, p) # rest) = Some (Inr (False, doms'))) \<and>
   (removeInconsistentValues h t p doms = Inr (True, doms') \<and> map_of doms' t \<noteq> Some [] \<longrightarrow>
      runAC3_while cs doms ((h, t, p) # rest)
      = runAC3_while cs doms' (rest @ filter (\<lambda>c. fst c = t) cs)) \<and>
   (runAC3 (partialAssignment assigned unassigned) (constraints csp) = Some (Inr (False, d)) \<longrightarrow>
      enforceConsistency assigned unassigned csp = Some (Inr FAILURE)) \<and>
   (runAC3 doms cs = Some (Inr (ok, d)) \<longrightarrow>
      (ok \<longleftrightarrow> (\<forall>k. map_of d k = Some [] \<longrightarrow> map_of doms k = Some []))) \<and>
   (removeInconsistentValues0 h t p doms = Inr (True, doms') \<longrightarrow>
      arcLoop0 cs doms ((h, t, p) # rest)
      = arcLoop0 cs doms' (rest @ filter (\<lambda>c. fst c = t) cs))"
proof (intro conjI impI)
  assume "removeInconsistentValues h t p doms = Inr (True, doms') \<and> map_of doms' t = Some []"
  then show "runAC3_while cs doms ((h, t, p) # rest) = Some (Inr (False, doms'))"
    by (simp add: runAC3_step_empty)
next
  assume "removeInconsistentValues h t p doms = Inr (True, doms') \<and> map_of doms' t \<noteq> Some []"
  then show "runAC3_while cs doms ((h, t, p) # rest)
      = runAC3_while cs doms' (rest @ filter (\<lambda>c. fst c = t) cs)"
    by (simp add: runAC3_step_requeue)
next
  assume "runAC3 (partialAssignment assigned unassigned) (constraints csp) = Some (Inr (False, d))"
  then show "enforceConsistency assigned unassigned csp = Some (Inr FAILURE)"
    by (rule enforceConsistency_fails)
next
  assume "runAC3 doms cs = Some (Inr (ok, d))"
  then have "runAC3_while cs doms cs = Some (Inr (ok, d))" by (simp add: runAC3_def)
  from runAC3_while_emptied[OF this]
  show "ok \<longleftrightarrow> (\<forall>k. map_of d k = Some [] \<longrightarrow> map_of doms k = Some [])" by blast
next
  assume "removeInconsistentValues0 h t p doms = Inr (True, doms')"
  then show "arcLoop0 cs doms ((h, t, p) # rest)
      = arcLoop0 cs doms' (rest @ filter (\<lambda>c. fst c = t) cs)"
    by (rule arcLoop0_step)
qed

theorem arc_consistency_on_empty_domain_witness:
  "runAC3_while (constraints emptying) [(''x'', [1]), (''y'', [2]), (''z'', [3])]
     [(''x'', ''y'', sameValue), (''y'', ''z'', smaller)]
     = Some (Inr (False, [(''x'', [1]), (''y'', []), (''z'', [3])])) \<and>
   enforceConsistency [] [(''x'', [1]), (''y'', [2]), (''z'', [3])] emptying = Some (Inr FAILURE) \<and>
   (\<exists>k. map_of [(''x'', [1 :: int]), (''y'', []), (''z'', [3])] k = Some [] \<and>
        map_of [(''x'', [1 :: int]), (''y'', [2]), (''z'', [3])] k \<noteq> Some []) \<and>
   runAC3_while [(''y'', ''z'', smaller)] [(''y'', [2, 5]), (''z'', [3, 1])] [(''y'', ''z'', smaller)]
     = runAC3_while [(''y'', ''z'', smaller)] [(''y'', [2, 5]), (''z'', [3])]
         ([] @ filter (\<lambda>c. fst c = ''z'') [(''y'', ''z'', smaller)]) \<and>
   arcLoop0 (constraints emptying) [(''x'', [1]), (''y'', [2]), (''z'', [3])]
     [(''x'', ''y'', sameValue), (''y'', ''z'', smaller)]
     = arcLoop0 (constraints emptying) [(''x'', [1]), (''y'', []), (''z'', [3])]
         ([(''y'', ''z'', smaller)] @ filter (\<lambda>c. fst c = ''y'') (constraints emptying))"
proof -
  let ?D0 = "[(''x'', [1 :: int]), (''y'', [2]), (''z'', [3])]"
  let ?D1 = "[(''x'', [1 :: int]), (''y'', []), (''z'', [3])]"
  have r: "removeInconsistentValues ''x'' ''y'' sameValue ?D0 = Inr (True, ?D1)"
    by (simp add: removeInconsistentValues_def sameValue_def)
  have e: "map_of ?D1 ''y'' = Some []" by simp
  have w1: "runAC3_while (constraints emptying) ?D0 [(''x'', ''y'', sameValue), (''y'', ''z'', smaller)]
      = Some (Inr (False, ?D1))"
    using arc_consistency_on_empty_domain[of "''x''" "''y''" sameValue ?D0 ?D1
        "constraints emptying" "[(''y'', ''z'', smaller)]"] r e by blast
  have p: "partialAssignment [] ?D0 = ?D0" by (simp add: partialAssignment_def)
  have c: "constraints emptying = [(''x'', ''y'', sameValue), (''y'', ''z'', smaller)]"
    by (simp add: emptying_def)
  have a: "runAC3 (partialAssignment [] ?D0) (constraints emptying) = Some (Inr (False, ?D1))"
    using w1 by (simp add: runAC3_def p c)
  then have w2: "enforceConsistency [] ?D0 emptying = Some (Inr FAILURE)"
    using arc_consistency_on_empty_domain[where assigned = "[]" and unassigned = ?D0
        and csp = emptying and d = ?D1] by blast
  from a have "runAC3 ?D0 (constraints emptying) = Some (Inr (False, ?D1))" by (simp add: p)
  then have w5: "\<exists>k. map_of ?D1 k = Some [] \<and> map_of ?D0 k \<noteq> Some []"
    using arc_consistency_on_empty_domain[where doms = ?D0 and cs = "constraints emptying"
        and ok = False and d = ?D1] by blast
  have r3: "removeInconsistentValues ''y'' ''z'' smaller [(''y'', [2, 5]), (''z'', [3, 1])]
      = Inr (True, [(''y'', [2, 5]), (''z'', [3])])"
    by (simp add: removeInconsistentValues_def smaller_def)
  have n3: "map_of [(''y'', [2, 5 :: int]), (''z'', [3])] ''z'' \<noteq> Some []" by simp
  have w3: "runAC3_while [(''y'', ''z'', smaller)] [(''y'', [2, 5]), (''z'', [3, 1])] [(''y'', ''z'', smaller)]
     = runAC3_while [(''y'', ''z'', smaller)] [(''y'', [2, 5]), (''z'', [3])]
         ([] @ filter (\<lambda>c. fst c = ''z'') [(''y'', ''z'', smaller)])"
    using arc_consistency_on_empty_domain[of "''y''" "''z''" smaller "[(''y'', [2, 5]), (''z'', [3, 1])]"
        "[(''y'', [2, 5]), (''z'', [3])]" "[(''y'', ''z'', smaller)]" "[]"] r3 n3 by blast
  have r0: "removeInconsistentValues0 ''x'' ''y'' sameValue ?D0 = Inr (True, ?D1)"
    by (simp add: removeInconsistentValues0_def sameValue_def)
  have w4: "arcLoop0 (constraints emptying) ?D0 [(''x'', ''y'', sameValue), (''y'', ''z'', smaller)]
     = arcLoop0 (constraints emptying) ?D1
         ([(''y'', ''z'', smaller)] @ filter (\<lambda>c. fst c = ''y'') (constraints emptying))"
    using arc_consistency_on_empty_domain[of "''x''" "''y''" sameValue ?D0 ?D1
        "constraints emptying" "[(''y'', ''z'', smaller)]"] r0 by blast
  from w1 w2 w3 w4 w5 show ?thesis by blast
qed

subsection \<open>A predicate that throws\<close>

text \<open>A constraint whose predicate throws on every tuple.\<close>

definition throwing :: "int nary" where
  "throwing = \<lparr> ident = 0, vars = [''a'', ''b''], predicate = (\<lambda>t. Inl (Thrown ''boom'')) \<rparr>"

definition crash :: "int problem" where
  "crash =
     \<lparr> variables = [(''a'', ArrayDomain [1]), (''b'', ArrayDomain [2])],
       constraints = [],
       naryConstraints = [throwing],
       naryIndex = Some [(''a'', [throwing]), (''b'', [throwing])] \<rparr>"

text \<open>
  Claim C3, at the constraint \<open>throwing\<close>, in both solvers. The older \<open>hasSupport\<close>
  calls the predicate outside any \<open>try\<close>: the error leaves \<open>hasSupport\<close> and the whole
  consistency pass. The \<open>hasSupport\<close> of \<open>src/csp.js\<close> catches it and answers \<open>false\<close>,
  and the pass returns \<open>FAILURE\<close> (see \<open>hasSupport_failClosed\<close> for every predicate).
\<close>

theorem older_hasSupport_propagates:
  "hasSupport0 ''a'' 1 throwing [(''b'', [2]), (''a'', [1])] = Inl (Thrown ''boom'') \<and>
   enforceConsistency0 [(''a'', [1])] [(''b'', [2])] crash = Some (Inl (Thrown ''boom'')) \<and>
   hasSupport ''a'' 1 throwing [(''b'', [2]), (''a'', [1])] = False \<and>
   enforceConsistency [(''a'', [1])] [(''b'', [2])] crash = Some (Inr FAILURE)"
  by code_simp

section \<open>Effects on the objects of the caller\<close>

text \<open>
  The functions of the sections above take and return the contents of objects.
  Whether \<open>solve\<close> changes an object of its caller depends on which object each write
  reaches, so this section gives the same functions over a store, in which arrays of
  values, objects of variables, lists of constraints and problem objects are cells
  and are passed by their addresses. The suffix \<open>H\<close> marks the function over the store.

  What stays a value: the elements of the domains; the constraint objects, which the
  solver reads (\<open>C.vars\<close>) and calls (\<open>C.predicate\<close>) and to which it never assigns; the
  index of \<open>buildNaryIndex\<close>, the tuples of \<open>hasSupport\<close> and the score table of
  \<open>orderValues\<close>, which are created by the functions that fill them. Predicates are
  functions of their arguments. The properties \<open>timeStep\<close> and \<open>cb\<close> and the counter
  \<open>stepCounter\<close> are left out: \<open>cb\<close> is code of the caller that a timer runs later.
\<close>


































































































end
